theory Spec2Isabelle
  imports Complex_Main "HOL-Library.Word"
begin

unbundle bit_operations_syntax

section \<open>Machine arithmetic shared by the embedded functions\<close>

text \<open>
  The C++ sources use \<^verbatim>\<open>unsigned int\<close> (32 bits, wrapping) and \<^verbatim>\<open>int\<close>.
  Unsigned values are natural numbers below \<open>2 ^ 32\<close>; the wrap-around of a left shift
  by one is written out.
\<close>

definition shl1_u32 :: "nat \<Rightarrow> nat" where
  "shl1_u32 x = (2 * x) mod 2 ^ 32"

text \<open>The largest \<^verbatim>\<open>int\<close> (32 bits, two's complement), \<^verbatim>\<open>INT_MAX\<close> of \<^verbatim>\<open><climits>\<close>.\<close>

definition INT_MAX :: nat where
  "INT_MAX = 2 ^ 31 - 1"


section \<open>pretree.cc: the height estimate\<close>

text \<open>
  \<^verbatim>\<open>
  void PreTree::RefineHeight(unsigned int height) {
    while (heightEst <= height) // Assigns next power-of-two above 'height'.
      heightEst <<= 1;
  }
  \<close>
  The static \<^verbatim>\<open>heightEst\<close> is threaded through as the first argument and the new
  value is returned. The loop need not terminate (an estimate of 0 never grows), so the
  result is optional: \<open>None\<close> means the loop runs forever.
\<close>

partial_function (option) RefineHeight :: "nat \<Rightarrow> nat \<Rightarrow> nat option" where
  "RefineHeight heightEst height =
     (if heightEst \<le> height then RefineHeight (shl1_u32 heightEst) height
      else Some heightEst)"

declare RefineHeight.simps [code]

section \<open>splitsig.cc: split signatures of one level\<close>

text \<open>
  A read or write outside an allocated array is undefined behaviour in C++; the model
  stops with \<open>Inl OutOfBounds\<close> there. An \<^verbatim>\<open>int\<close> computation whose value lies beyond
  \<^verbatim>\<open>INT_MAX\<close> is undefined behaviour as well (in practice a negative count, which no
  allocation accepts); the model stops with \<open>Inl Overflow\<close> there.
\<close>

datatype fault = OutOfBounds | Overflow

text \<open>The largest finite double, \<^verbatim>\<open>DBL_MAX\<close> of \<^verbatim>\<open><cfloat>\<close>.\<close>

definition DBL_MAX :: real where
  "DBL_MAX = (2 ^ 53 - 1) * 2 ^ 971"

text \<open>
  The fields of \<^verbatim>\<open>SSNode\<close> are those assigned by \<^verbatim>\<open>SplitSig::Write\<close>. Doubles are
  modelled as reals: the comparisons of \<^verbatim>\<open>ArgMax\<close> are those of finite doubles.
\<close>

record SSNode =
  predIdx :: nat
  setIdx :: int
  sCount :: nat
  lhIdxCount :: nat
  info :: real

text \<open>
  \<^verbatim>\<open>SSNode::SSNode() : info(-DBL_MAX) {}\<close>: the constructor sets \<^verbatim>\<open>info\<close> and leaves
  the other fields as it finds them in the fresh memory, here the argument.
\<close>

definition SSNode_ctor :: "SSNode \<Rightarrow> SSNode" where
  "SSNode_ctor raw = raw\<lparr>SSNode.info := - DBL_MAX\<rparr>"

text \<open>
  The static \<^verbatim>\<open>nPred\<close> and the members \<^verbatim>\<open>splitCount\<close>, \<^verbatim>\<open>levelSS\<close> of
  \<^verbatim>\<open>SplitSig\<close>.
\<close>

record SplitSig =
  nPred :: nat
  splitCount :: nat
  levelSS :: "SSNode list"

text \<open>
  \<^verbatim>\<open>
  void SplitSig::LevelInit(int _splitCount) {
    splitCount = _splitCount;
    levelSS = new SSNode[nPred * splitCount];
  }
  \<close>
  The array length is an \<^verbatim>\<open>unsigned int\<close> product. \<open>raw i\<close> is the content of the
  fresh memory of slot \<open>i\<close> before its constructor runs.
\<close>

definition LevelInit :: "SplitSig \<Rightarrow> nat \<Rightarrow> (nat \<Rightarrow> SSNode) \<Rightarrow> SplitSig" where
  "LevelInit ss splitCount' raw =
     ss\<lparr>splitCount := splitCount',
        levelSS := map (\<lambda>i. SSNode_ctor (raw i)) [0 ..< (nPred ss * splitCount') mod 2 ^ 32]\<rparr>"

text \<open>
  Modelled from the spec: \<^verbatim>\<open>SplitSig::Lookup\<close> is declared in splitsig.h, which is not
  among the sources. The spec gives the layout of the level matrix: slot
  \<open>(p, n) = p * splitCount + n\<close>, which is also the order in which \<^verbatim>\<open>ArgMax\<close> walks
  it. The function returns the index of the slot.
\<close>

definition Lookup :: "SplitSig \<Rightarrow> nat \<Rightarrow> nat \<Rightarrow> nat" where
  "Lookup ss bottomIdx pIdx = pIdx * splitCount ss + bottomIdx"

text \<open>
  \<^verbatim>\<open>
  void SplitSig::Write(unsigned int _bottomIdx, unsigned int _predIdx, int _setIdx,
                       unsigned int _sCount, unsigned int _lhIdxCount, double _info) {
    SSNode ssn;
    ssn.setIdx = _setIdx;
    ssn.sCount = _sCount;
    ssn.lhIdxCount = _lhIdxCount;
    ssn.info = _info;
    ssn.predIdx = _predIdx;
    Lookup(_bottomIdx, ssn.predIdx) = ssn;
  }
  \<close>
\<close>

definition Write :: "SplitSig \<Rightarrow> nat \<Rightarrow> nat \<Rightarrow> int \<Rightarrow> nat \<Rightarrow> nat \<Rightarrow> real \<Rightarrow> fault + SplitSig" where
  "Write ss bottomIdx' predIdx' setIdx' sCount' lhIdxCount' info' =
     (let ssn = \<lparr>SSNode.predIdx = predIdx', setIdx = setIdx', sCount = sCount',
                 lhIdxCount = lhIdxCount', info = info'\<rparr>;
          slot = Lookup ss bottomIdx' (SSNode.predIdx ssn)
      in if slot < length (levelSS ss)
         then Inr (ss\<lparr>levelSS := (levelSS ss)[slot := ssn]\<rparr>)
         else Inl OutOfBounds)"

text \<open>
  A run of calls of \<^verbatim>\<open>Write\<close>, as the split search of one level makes them; each call
  is the tuple of its arguments.
\<close>

type_synonym write_call = "nat \<times> nat \<times> int \<times> nat \<times> nat \<times> real"

fun Writes :: "SplitSig \<Rightarrow> write_call list \<Rightarrow> fault + SplitSig" where
  "Writes ss [] = Inr ss"
| "Writes ss ((b, p, st, sc, lh, gain) # ws) =
     (case Write ss b p st sc lh gain of
        Inl e \<Rightarrow> Inl e
      | Inr ss' \<Rightarrow> Writes ss' ws)"

text \<open>
  \<^verbatim>\<open>
  SSNode *SplitSig::ArgMax(unsigned int levelIdx, double gainMax) const {
    SSNode *argMax = 0;
    unsigned int predOff = levelIdx;
    for (unsigned int predIdx = 0; predIdx < nPred; predIdx++, predOff += splitCount) {
      SSNode *candSS = &levelSS[predOff];
      if (candSS->info > gainMax) {
        argMax = candSS;
        gainMax = candSS->info;
      }
    }
    return argMax;
  }
  \<close>
  The returned pointer is the index of the slot in \<^verbatim>\<open>levelSS\<close>, \<open>None\<close> for the null
  pointer. The loop counter is \<open>pIdx\<close>.
\<close>

function ArgMax_loop :: "SplitSig \<Rightarrow> nat \<Rightarrow> nat \<Rightarrow> nat option \<Rightarrow> real \<Rightarrow> fault + nat option" where
  "ArgMax_loop ss pIdx predOff argMax gainMax =
     (if pIdx < nPred ss then
        (if predOff < length (levelSS ss) then
           (let candSS = levelSS ss ! predOff in
            if SSNode.info candSS > gainMax
            then ArgMax_loop ss (pIdx + 1) ((predOff + splitCount ss) mod 2 ^ 32)
                   (Some predOff) (SSNode.info candSS)
            else ArgMax_loop ss (pIdx + 1) ((predOff + splitCount ss) mod 2 ^ 32)
                   argMax gainMax)
         else Inl OutOfBounds)
      else Inr argMax)"
  by pat_completeness auto
termination
  by (relation "measure (\<lambda>(ss, pIdx, predOff, argMax, gainMax). nPred ss - pIdx)") auto

definition ArgMax :: "SplitSig \<Rightarrow> nat \<Rightarrow> real \<Rightarrow> fault + nat option" where
  "ArgMax ss levelIdx gainMax = ArgMax_loop ss 0 levelIdx None gainMax"

declare ArgMax_loop.simps [simp del]


definition ex_raw :: "nat \<Rightarrow> SSNode" where
  "ex_raw i = \<lparr>SSNode.predIdx = 9, setIdx = 4, sCount = 7, lhIdxCount = 7, info = 100\<rparr>"

definition ex_ss0 :: SplitSig where
  "ex_ss0 = \<lparr>nPred = 2, splitCount = 0, levelSS = []\<rparr>"

definition ex_written :: SplitSig where
  "ex_written = \<lparr>nPred = 2, splitCount = 1, levelSS =
        [\<lparr>SSNode.predIdx = 9, setIdx = 4, sCount = 7, lhIdxCount = 7, info = - DBL_MAX\<rparr>,
         \<lparr>SSNode.predIdx = 1, setIdx = -1, sCount = 3, lhIdxCount = 2, info = 1 / 2\<rparr>]\<rparr>"

section \<open>pretree.cc: the pre-tree under construction\<close>

text \<open>
  \<^verbatim>\<open>PTNode\<close> has the fields \<^verbatim>\<open>id\<close>, \<^verbatim>\<open>lhId\<close>, \<^verbatim>\<open>predIdx\<close>, \<^verbatim>\<open>splitVal\<close> and
  \<^verbatim>\<open>info\<close>; the field \<^verbatim>\<open>id\<close> is written \<open>id'\<close> here. Node indices and left-hand
  ids are \<^verbatim>\<open>int\<close> (\<open>lhId = -1\<close> marks a leaf). Capacities, watermarks and loop
  counters are taken as \<^verbatim>\<open>int\<close> (the class declaration in pretree.h is not among the
  sources; the loops over them count with \<^verbatim>\<open>int i\<close>, \<^verbatim>\<open>BitFactory\<close> takes the length
  as \<^verbatim>\<open>int\<close>, and \<^verbatim>\<open>TerminalOffspring\<close> hands the height out as \<^verbatim>\<open>int\<close>) and are kept
  nonnegative: they are natural numbers here, and every computation on them that would
  leave the range of \<^verbatim>\<open>int\<close> stops with \<open>Inl Overflow\<close>.
\<close>

record PTNode =
  id' :: int
  lhId :: int
  predIdx :: int
  splitVal :: real
  info :: real

text \<open>
  The members of \<^verbatim>\<open>PreTree\<close> that the node and bit storage use. A null
  \<^verbatim>\<open>treeSplitBits\<close> is the empty list.
\<close>

record PreTree =
  nodeCount :: nat
  nodeVec :: "PTNode list"
  treeHeight :: nat
  leafCount :: int
  bitLength :: nat
  treeSplitBits :: "bool list"
  treeBitOffset :: nat

text \<open>
  The copy loops \<^verbatim>\<open>for (int i = 0; i < n; i++) dst[i] = src[i];\<close> of
  \<^verbatim>\<open>ReNodes\<close>, \<^verbatim>\<open>ReBits\<close> and \<^verbatim>\<open>ConsumeSplitBits\<close>: the first \<open>n\<close> iterations are
  the first \<open>n - 1\<close> followed by the iteration at index \<open>n - 1\<close>.
\<close>

primrec copy_loop :: "nat \<Rightarrow> 'a list \<Rightarrow> 'a list \<Rightarrow> fault + 'a list" where
  "copy_loop 0 src dst = Inr dst"
| "copy_loop (Suc n) src dst =
     (case copy_loop n src dst of
        Inl e \<Rightarrow> Inl e
      | Inr d \<Rightarrow> if n < length src \<and> n < length d then Inr (d[n := src ! n])
                else Inl OutOfBounds)"

text \<open>
  \<^verbatim>\<open>
  bool *PreTree::BitFactory(int _bitLength) {
    bool *tsb = 0;
    if (Predictor::NPredFac() > 0) {
      bitLength = _bitLength == 0 ? nodeCount * Predictor::MaxFacCard() : _bitLength;
      tsb = new bool[bitLength];
      for (int i = 0; i < bitLength; i++)
        tsb[i] = false;
    }
    return tsb;
  }
  \<close>
  \<^verbatim>\<open>Predictor::NPredFac()\<close> and \<^verbatim>\<open>Predictor::MaxFacCard()\<close> are statics of a class that
  is not among the sources: they are the parameters \<open>nPredFac\<close> and \<open>maxFacCard\<close>.
  The constructor calls \<^verbatim>\<open>BitFactory()\<close> with no argument, so the default argument is
  the 0 that the body tests for. The argument \<open>bitLength'\<close> is the value the caller
  computes: one that does not fit the \<^verbatim>\<open>int\<close> parameter is an overflow, and so is a
  product \<^verbatim>\<open>nodeCount * MaxFacCard()\<close> beyond \<^verbatim>\<open>INT_MAX\<close>.
\<close>

definition BitFactory :: "nat \<Rightarrow> nat \<Rightarrow> PreTree \<Rightarrow> nat \<Rightarrow> fault + (PreTree \<times> bool list)" where
  "BitFactory nPredFac maxFacCard pt bitLength' =
     (if bitLength' > INT_MAX then Inl Overflow
      else if nPredFac > 0 then
        (if bitLength' = 0 \<and> nodeCount pt * maxFacCard > INT_MAX then Inl Overflow
         else
           (let bl = (if bitLength' = 0 then nodeCount pt * maxFacCard else bitLength')
            in Inr (pt\<lparr>bitLength := bl\<rparr>, replicate bl False)))
      else Inr (pt, []))"

text \<open>
  \<^verbatim>\<open>
  PreTree::PreTree() {
    nodeCount = heightEst;   // Initial height estimate.
    nodeVec = new PTNode[nodeCount];
    nodeVec[0].id = 0;
    nodeVec[0].lhId = -1;
    ...
    treeHeight = leafCount = 1;
    treeBitOffset = 0;
    treeSplitBits = BitFactory();
  }
  \<close>
  \<open>raw i\<close> is the content of the fresh memory of node \<open>i\<close>, and \<open>rawBitLength\<close>
  that of the member \<^verbatim>\<open>bitLength\<close>, which stays unassigned without factor predictors.
  \<^verbatim>\<open>heightEst\<close> is \<^verbatim>\<open>unsigned int\<close>: an estimate beyond \<^verbatim>\<open>INT_MAX\<close> does not fit
  \<^verbatim>\<open>nodeCount\<close>.
\<close>

definition PreTree_ctor :: "nat \<Rightarrow> nat \<Rightarrow> nat \<Rightarrow> (nat \<Rightarrow> PTNode) \<Rightarrow> nat \<Rightarrow> fault + PreTree" where
  "PreTree_ctor heightEst nPredFac maxFacCard raw rawBitLength =
     (if heightEst > INT_MAX then Inl Overflow
      else if 0 < heightEst then
        (let pt0 = \<lparr>nodeCount = heightEst,
                    nodeVec = (map raw [0 ..< heightEst])[0 := (raw 0)\<lparr>id' := 0, lhId := -1\<rparr>],
                    treeHeight = 1, leafCount = 1, bitLength = rawBitLength,
                    treeSplitBits = [], treeBitOffset = 0\<rparr>
         in case BitFactory nPredFac maxFacCard pt0 0 of
              Inl e \<Rightarrow> Inl e
            | Inr (pt1, tsb) \<Rightarrow> Inr (pt1\<lparr>treeSplitBits := tsb\<rparr>))
      else Inl OutOfBounds)"

text \<open>
  \<^verbatim>\<open>
  void PreTree::TerminalOffspring(int _parId, int &ptLH, int &ptRH) {
    ptLH = treeHeight++;
    nodeVec[_parId].lhId = ptLH;
    nodeVec[ptLH].id = ptLH;
    nodeVec[ptLH].lhId = -1;

    ptRH = treeHeight++;
    nodeVec[ptRH].id = ptRH;
    nodeVec[ptRH].lhId = -1;

    leafCount += 2;
  }
  \<close>
  The result carries the new pre-tree and the two output parameters.
\<close>

definition TerminalOffspring :: "PreTree \<Rightarrow> nat \<Rightarrow> fault + (PreTree \<times> nat \<times> nat)" where
  "TerminalOffspring pt parId' =
     (let ptLH = treeHeight pt; ptRH = treeHeight pt + 1 in
      if parId' < length (nodeVec pt) \<and> ptRH < length (nodeVec pt) then
        (let nv1 = (nodeVec pt)[parId' := (nodeVec pt ! parId')\<lparr>lhId := int ptLH\<rparr>];
             nv2 = nv1[ptLH := (nv1 ! ptLH)\<lparr>id' := int ptLH, lhId := -1\<rparr>];
             nv3 = nv2[ptRH := (nv2 ! ptRH)\<lparr>id' := int ptRH, lhId := -1\<rparr>]
         in Inr (pt\<lparr>nodeVec := nv3, treeHeight := treeHeight pt + 2,
                    leafCount := leafCount pt + 2\<rparr>, ptLH, ptRH))
      else Inl OutOfBounds)"

text \<open>
  \<^verbatim>\<open>
  void PreTree::NonTerminal(int _id, double _info, double _splitVal, int _predIdx) {
    PTNode *ptS = &nodeVec[_id];
    ptS->predIdx = _predIdx;
    ptS->info = _info;
    ptS->splitVal = _splitVal;
    leafCount--;
  }
  \<close>
\<close>

definition NonTerminal :: "PreTree \<Rightarrow> nat \<Rightarrow> real \<Rightarrow> real \<Rightarrow> int \<Rightarrow> fault + PreTree" where
  "NonTerminal pt nodeId info' splitVal' predIdx' =
     (if nodeId < length (nodeVec pt) then
        Inr (pt\<lparr>nodeVec := (nodeVec pt)[nodeId := (nodeVec pt ! nodeId)
                    \<lparr>PTNode.predIdx := predIdx', PTNode.info := info', splitVal := splitVal'\<rparr>],
                leafCount := leafCount pt - 1\<rparr>)
      else Inl OutOfBounds)"

text \<open>
  \<^verbatim>\<open>
  void PreTree::ReNodes() {
    nodeCount <<= 1;
    PTNode *PTtemp = new PTNode[nodeCount];
    for (int i = 0; i < treeHeight; i++)
      PTtemp[i] = nodeVec[i];
    delete [] nodeVec;
    nodeVec = PTtemp;
  }
  \<close>
  The shift leaves the range of \<^verbatim>\<open>int\<close> from \<open>nodeCount = 2 ^ 30\<close> on.
\<close>

definition ReNodes :: "(nat \<Rightarrow> PTNode) \<Rightarrow> PreTree \<Rightarrow> fault + PreTree" where
  "ReNodes raw pt =
     (if 2 * nodeCount pt > INT_MAX then Inl Overflow
      else
        (let nodeCount' = 2 * nodeCount pt;
             PTtemp = map raw [0 ..< nodeCount']
         in case copy_loop (treeHeight pt) (nodeVec pt) PTtemp of
              Inl e \<Rightarrow> Inl e
            | Inr PTtemp' \<Rightarrow> Inr (pt\<lparr>nodeCount := nodeCount', nodeVec := PTtemp'\<rparr>)))"

text \<open>
  \<^verbatim>\<open>
  void PreTree::ReBits() {
    bool *TStemp = BitFactory(bitLength << 1);
    for (int i = 0; i < treeBitOffset; i++)
      TStemp[i] = treeSplitBits[i];
    delete [] treeSplitBits;
    treeSplitBits = TStemp;
  }
  \<close>
  The shift leaves the range of \<^verbatim>\<open>int\<close> from \<open>bitLength = 2 ^ 30\<close> on. A
  \<^verbatim>\<open>bitLength\<close> of 0 shifts to the 0 that \<^verbatim>\<open>BitFactory\<close> takes for its default.
\<close>

definition ReBits :: "nat \<Rightarrow> nat \<Rightarrow> PreTree \<Rightarrow> fault + PreTree" where
  "ReBits nPredFac maxFacCard pt =
     (if 2 * bitLength pt > INT_MAX then Inl Overflow
      else
        (case BitFactory nPredFac maxFacCard pt (2 * bitLength pt) of
           Inl e \<Rightarrow> Inl e
         | Inr (pt1, TStemp) \<Rightarrow>
             (case copy_loop (treeBitOffset pt1) (treeSplitBits pt1) TStemp of
                Inl e \<Rightarrow> Inl e
              | Inr TStemp' \<Rightarrow> Inr (pt1\<lparr>treeSplitBits := TStemp'\<rparr>))))"

text \<open>
  \<^verbatim>\<open>
  void PreTree::CheckStorage(int splitNext, int leafNext) {
    if (treeHeight + splitNext + leafNext > nodeCount)
      ReNodes();
    if (Predictor::NPredFac() > 0) {
      if (treeBitOffset + splitNext * Predictor::MaxFacCard() > bitLength)
        ReBits();
    }
  }
  \<close>
  The two demands are \<^verbatim>\<open>int\<close> sums: one beyond \<^verbatim>\<open>INT_MAX\<close> is an overflow.
\<close>

definition CheckStorage :: "nat \<Rightarrow> nat \<Rightarrow> (nat \<Rightarrow> PTNode) \<Rightarrow> PreTree \<Rightarrow> nat \<Rightarrow> nat \<Rightarrow> fault + PreTree" where
  "CheckStorage nPredFac maxFacCard raw pt splitNext leafNext =
     (if treeHeight pt + splitNext + leafNext > INT_MAX then Inl Overflow
      else
        (case (if treeHeight pt + splitNext + leafNext > nodeCount pt then ReNodes raw pt
               else Inr pt) of
           Inl e \<Rightarrow> Inl e
         | Inr pt1 \<Rightarrow>
             if nPredFac > 0 then
               (if treeBitOffset pt1 + splitNext * maxFacCard > INT_MAX then Inl Overflow
                else if treeBitOffset pt1 + splitNext * maxFacCard > bitLength pt1
                then ReBits nPredFac maxFacCard pt1 else Inr pt1)
             else Inr pt1))"

text \<open>
  \<^verbatim>\<open>
  void PTNode::Consume(int &pred, double &num, int &bump) {
    if (lhId > 0) { // Consumes splits.
      pred = predIdx;
      num = splitVal;
      bump = lhId - id;
    }
    else { // Consumes leaves.  Scores already written into num.
      bump = 0;
    }
  }
  \<close>
  The three reference parameters are passed in and returned as a triple.
\<close>

definition Consume :: "PTNode \<Rightarrow> int \<times> real \<times> int \<Rightarrow> int \<times> real \<times> int" where
  "Consume n = (\<lambda>(pred, num, bump).
     if lhId n > 0 then (PTNode.predIdx n, splitVal n, lhId n - id' n)
     else (pred, num, 0))"

text \<open>
  \<^verbatim>\<open>
  void PreTree::ConsumeNodes(int nodeVal[], double numVec[], int bumpVec[]) {
    sample->Scores(sample2PT, treeHeight, nodeVal, numVec); // Virtual call.
    for (int idx = 0; idx < treeHeight; idx++) {
      nodeVec[idx].Consume(nodeVal[idx], numVec[idx], bumpVec[idx]);
    }
  }
  \<close>
  \<^verbatim>\<open>Sample::Scores\<close> is not among the sources: the arguments \<open>nodeVal\<close> and \<open>numVec\<close>
  are the two vectors as that call leaves them, with the leaf scores written.
  \<open>ConsumeNodes_loop n\<close> is the first \<open>n\<close> iterations of the loop.
\<close>

primrec ConsumeNodes_loop :: "nat \<Rightarrow> PTNode list \<Rightarrow> int list \<times> real list \<times> int list
    \<Rightarrow> fault + (int list \<times> real list \<times> int list)" where
  "ConsumeNodes_loop 0 nv out = Inr out"
| "ConsumeNodes_loop (Suc idx) nv out =
     (case ConsumeNodes_loop idx nv out of
        Inl e \<Rightarrow> Inl e
      | Inr (nodeVal, numVec, bumpVec) \<Rightarrow>
          if idx < length nv \<and> idx < length nodeVal \<and> idx < length numVec
             \<and> idx < length bumpVec
          then (case Consume (nv ! idx) (nodeVal ! idx, numVec ! idx, bumpVec ! idx) of
                  (pred, num, bump) \<Rightarrow>
                    Inr (nodeVal[idx := pred], numVec[idx := num], bumpVec[idx := bump]))
          else Inl OutOfBounds)"

definition ConsumeNodes :: "PreTree \<Rightarrow> int list \<Rightarrow> real list \<Rightarrow> int list
    \<Rightarrow> fault + (int list \<times> real list \<times> int list)" where
  "ConsumeNodes pt nodeVal numVec bumpVec =
     ConsumeNodes_loop (treeHeight pt) (nodeVec pt) (nodeVal, numVec, bumpVec)"

text \<open>
  The pre-trees that training can build: the constructor, then any sequence of
  \<^verbatim>\<open>CheckStorage\<close>, \<^verbatim>\<open>TerminalOffspring\<close> on a node already in the tree, and
  \<^verbatim>\<open>NonTerminal\<close> on such a node.
\<close>

inductive grown :: "PreTree \<Rightarrow> bool" where
  grown_ctor:
    "PreTree_ctor heightEst nPredFac maxFacCard raw rawBitLength = Inr pt \<Longrightarrow> grown pt"
| grown_CheckStorage:
    "grown pt \<Longrightarrow> CheckStorage nPredFac maxFacCard raw pt splitNext leafNext = Inr pt'
     \<Longrightarrow> grown pt'"
| grown_TerminalOffspring:
    "grown pt \<Longrightarrow> parId < treeHeight pt \<Longrightarrow> TerminalOffspring pt parId = Inr (pt', lh, rh)
     \<Longrightarrow> grown pt'"
| grown_NonTerminal:
    "grown pt \<Longrightarrow> nodeId < treeHeight pt \<Longrightarrow> NonTerminal pt nodeId gain sv pIdx = Inr pt'
     \<Longrightarrow> grown pt'"

text \<open>
  The invariant of the node storage: the watermark lies within the allocated vector,
  every node below the watermark carries its own index as \<^verbatim>\<open>id\<close>, and its \<^verbatim>\<open>lhId\<close>
  is either the leaf mark \<open>-1\<close> or the index of a later node below the watermark.
\<close>

definition PreTree_inv :: "PreTree \<Rightarrow> bool" where
  "PreTree_inv pt \<longleftrightarrow>
     0 < treeHeight pt \<and> treeHeight pt \<le> length (nodeVec pt)
     \<and> length (nodeVec pt) = nodeCount pt
     \<and> (\<forall>i<treeHeight pt. id' (nodeVec pt ! i) = int i
           \<and> (lhId (nodeVec pt ! i) = -1
               \<or> (int i < lhId (nodeVec pt ! i) \<and> lhId (nodeVec pt ! i) < int (treeHeight pt))))"

text \<open>Concrete pre-trees on which the theorems are instantiated.\<close>

definition ex_rawPT :: "nat \<Rightarrow> PTNode" where
  "ex_rawPT i = \<lparr>id' = 77, lhId = 55, predIdx = 33, splitVal = 11, info = 22\<rparr>"

definition ex_pt :: PreTree where
  "ex_pt = \<lparr>nodeCount = 4,
            nodeVec = [\<lparr>id' = 0, lhId = -1, predIdx = 33, splitVal = 11, info = 22\<rparr>,
                       ex_rawPT 1, ex_rawPT 2, ex_rawPT 3],
            treeHeight = 1, leafCount = 1, bitLength = 12,
            treeSplitBits = replicate 12 False, treeBitOffset = 0\<rparr>"

text \<open>A pre-tree at the capacity of \<open>2 ^ 30\<close> nodes, without factor predictors.\<close>

definition ex_pt_big :: PreTree where
  "ex_pt_big = \<lparr>nodeCount = 2 ^ 30,
            nodeVec = (replicate (2 ^ 30) (ex_rawPT 0))[0 := (ex_rawPT 0)\<lparr>id' := 0, lhId := -1\<rparr>],
            treeHeight = 1, leafCount = 1, bitLength = 0,
            treeSplitBits = [], treeBitOffset = 0\<rparr>"

definition ex_pt_split :: PreTree where
  "ex_pt_split = \<lparr>nodeCount = 4,
            nodeVec = [\<lparr>id' = 0, lhId = 1, predIdx = 5, splitVal = 3 / 2, info = 9\<rparr>,
                       \<lparr>id' = 1, lhId = -1, predIdx = 33, splitVal = 11, info = 22\<rparr>,
                       \<lparr>id' = 2, lhId = -1, predIdx = 33, splitVal = 11, info = 22\<rparr>,
                       ex_rawPT 3],
            treeHeight = 3, leafCount = 2, bitLength = 12,
            treeSplitBits = replicate 12 False, treeBitOffset = 0\<rparr>"

section \<open>dectree.cc: the packed forest and prediction\<close>

text \<open>
  A \<^verbatim>\<open>double\<close> result that may be not-a-number or infinite: the quotient of two finite
  doubles by IEEE 754 rules, the divisor being \<open>+0.0\<close> when it is zero (it is a count
  converted from \<^verbatim>\<open>int\<close>). Rounding is not modelled.
\<close>

datatype dbl = Finite real | PosInf | NegInf | NaN

definition dbl_div :: "real \<Rightarrow> real \<Rightarrow> dbl" where
  "dbl_div x y =
     (if y \<noteq> 0 then Finite (x / y)
      else if x = 0 then NaN
      else if 0 < x then PosInf else NegInf)"

subsection \<open>DecTree::Vote\<close>









subsection \<open>The in-bag bitmap: DecTree::SetBagRow and DecTree::InBag\<close>

text \<open>
  \<^verbatim>\<open>inBag\<close> and a pre-tree's \<^verbatim>\<open>ptInBag\<close> are arrays of \<^verbatim>\<open>unsigned int\<close>, 32-bit
  words here.

  Modelled from the spec: \<^verbatim>\<open>DecTree::BagCoord\<close> is declared in dectree.h, which is not
  among the sources. The spec describes the bitmap as \<open>nTree \<times> nRow\<close> bits packed
  into 32-bit words with the tree as the faster index: the bit of \<open>(treeNum, row)\<close> has
  the position \<open>idx = row * nTree + treeNum\<close>, in word \<open>off = idx / 32\<close> at bit
  \<open>idx mod 32\<close> (the output parameter \<^verbatim>\<open>bit\<close>, written \<open>bit'\<close>). The function sets the two output parameters and returns the word
  \<^verbatim>\<open>inBag[off]\<close>; the position is computed in \<^verbatim>\<open>unsigned int\<close>.
\<close>

definition BagCoord :: "nat \<Rightarrow> 32 word list \<Rightarrow> nat \<Rightarrow> nat \<Rightarrow> fault + (32 word \<times> nat \<times> nat)" where
  "BagCoord nTree' inBag treeNum row =
     (let idx = (row * nTree' + treeNum) mod 2 ^ 32;
          off = idx div 32;
          bit' = idx mod 32
      in if off < length inBag then Inr (inBag ! off, off, bit') else Inl OutOfBounds)"

text \<open>
  \<^verbatim>\<open>
  bool DecTree::InBag(int treeNum, unsigned int row) {
    unsigned int bit, off;
    unsigned int val = BagCoord(treeNum, row, off, bit);
    return (val & (1 << bit)) > 0;
  }
  \<close>
\<close>

definition InBag :: "nat \<Rightarrow> 32 word list \<Rightarrow> nat \<Rightarrow> nat \<Rightarrow> fault + bool" where
  "InBag nTree' inBag treeNum row =
     (case BagCoord nTree' inBag treeNum row of
        Inl e \<Rightarrow> Inl e
      | Inr (val, off, bit') \<Rightarrow> Inr ((val AND push_bit bit' 1) > 0))"

text \<open>
  \<^verbatim>\<open>
  void DecTree::SetBagRow(const unsigned int ptInBag[], int treeNum) {
    const unsigned int slotBits = 8 * sizeof(unsigned int);
    int slotRow = 0;
    int slot = 0;
    for (unsigned int baseRow = 0; baseRow < nRow; baseRow += slotBits, slot++) {
      unsigned int ptSlot = ptInBag[slot];
      unsigned int mask = 1;
      unsigned int supRow = nRow < baseRow + slotBits ? nRow : baseRow + slotBits;
      for (unsigned int row = baseRow; row < supRow; row++, mask <<= 1) {
        if (ptSlot & mask) { // row is in-bag.
          unsigned int off, bit;
          unsigned int val = BagCoord(treeNum, row, off, bit);
          val |= (1 << bit);
          inBag[off] = val;
        }
      }
      slotRow += slotBits;
    }
  }
  \<close>
  \<open>SetBagRow_inner n\<close> is the first \<open>n\<close> iterations of the inner loop: iteration \<open>j\<close>
  has \<open>row = baseRow + j\<close> and \<open>mask = 1 << j\<close>. The outer loop adds 32 to
  \<^verbatim>\<open>baseRow\<close> with wrap-around, so it need not terminate: \<open>None\<close> is the loop that
  runs forever.
\<close>

primrec SetBagRow_inner :: "nat \<Rightarrow> nat \<Rightarrow> 32 word \<Rightarrow> nat \<Rightarrow> nat \<Rightarrow> 32 word list
    \<Rightarrow> fault + 32 word list" where
  "SetBagRow_inner 0 nTree' ptSlot treeNum baseRow inBag = Inr inBag"
| "SetBagRow_inner (Suc j) nTree' ptSlot treeNum baseRow inBag =
     (case SetBagRow_inner j nTree' ptSlot treeNum baseRow inBag of
        Inl e \<Rightarrow> Inl e
      | Inr inBag' \<Rightarrow>
          (let row = baseRow + j; mask = (push_bit j 1 :: 32 word) in
           if ptSlot AND mask \<noteq> 0 then
             (case BagCoord nTree' inBag' treeNum row of
                Inl e \<Rightarrow> Inl e
              | Inr (val, off, bit') \<Rightarrow> Inr (inBag'[off := val OR push_bit bit' 1]))
           else Inr inBag'))"

partial_function (option) SetBagRow_outer :: "nat \<Rightarrow> nat \<Rightarrow> 32 word list \<Rightarrow> nat \<Rightarrow> nat \<Rightarrow> nat
    \<Rightarrow> 32 word list \<Rightarrow> (fault + 32 word list) option" where
  "SetBagRow_outer nTree' nRow' ptInBag treeNum baseRow slot inBag =
     (if baseRow < nRow' then
        (if slot < length ptInBag then
           (let ptSlot = ptInBag ! slot;
                supRow = (if nRow' < (baseRow + 32) mod 2 ^ 32 then nRow'
                          else (baseRow + 32) mod 2 ^ 32)
            in case SetBagRow_inner (supRow - baseRow) nTree' ptSlot treeNum baseRow inBag of
                 Inl e \<Rightarrow> Some (Inl e)
               | Inr inBag' \<Rightarrow>
                   SetBagRow_outer nTree' nRow' ptInBag treeNum
                     ((baseRow + 32) mod 2 ^ 32) (slot + 1) inBag')
         else Some (Inl OutOfBounds))
      else Some (Inr inBag))"

declare SetBagRow_outer.simps [code]

definition SetBagRow :: "nat \<Rightarrow> nat \<Rightarrow> 32 word list \<Rightarrow> nat \<Rightarrow> 32 word list
    \<Rightarrow> (fault + 32 word list) option" where
  "SetBagRow nTree' nRow' ptInBag treeNum inBag =
     SetBagRow_outer nTree' nRow' ptInBag treeNum 0 0 inBag"

text \<open>
  The bitmap as \<^verbatim>\<open>DecTree::FactoryTrain\<close> allocates and clears it:
  \<^verbatim>\<open>
  int inBagSize = ((nTree * nRow) + 8 * sizeof(unsigned int) - 1) / (8 * sizeof(unsigned int));
  inBag = new unsigned int[inBagSize];
  for (int i = 0; i < inBagSize; i++)
    inBag[i] = 0;
  \<close>
\<close>

definition FactoryTrain_inBag :: "nat \<Rightarrow> nat \<Rightarrow> 32 word list" where
  "FactoryTrain_inBag nTree' nRow' = replicate (((nTree' * nRow') mod 2 ^ 32 + 31) div 32) 0"

text \<open>Bit \<open>idx\<close> of a packed bit vector.\<close>

definition packed_bit :: "32 word list \<Rightarrow> nat \<Rightarrow> bool" where
  "packed_bit ws idx = bit (ws ! (idx div 32)) (idx mod 32)"

subsection \<open>Regression prediction over numeric predictors\<close>

text \<open>
  The vectors of the packed forest that the walker reads, as \<^verbatim>\<open>ForestReload\<close> or
  \<^verbatim>\<open>ConsumeTrees\<close> leave them in the statics of \<^verbatim>\<open>DecTree\<close>. The other statics
  (\<^verbatim>\<open>nTree\<close>, \<^verbatim>\<open>nRow\<close>, \<^verbatim>\<open>nPred\<close>, \<^verbatim>\<open>inBag\<close>) and \<^verbatim>\<open>Predictor::numBase\<close> are
  passed as arguments.
\<close>

record Forest =
  treeOriginForest :: "int list"
  predForest :: "int list"
  numForest :: "real list"
  bumpForest :: "int list"

text \<open>A read \<^verbatim>\<open>xs[i]\<close> with an \<^verbatim>\<open>int\<close> index.\<close>

definition rd :: "'a list \<Rightarrow> int \<Rightarrow> fault + 'a" where
  "rd xs i = (if 0 \<le> i \<and> nat i < length xs then Inr (xs ! nat i) else Inl OutOfBounds)"

text \<open>
  The walk of one tree in \<^verbatim>\<open>PredictRowNumReg\<close>:
  \<^verbatim>\<open>
  int idx = 0;
  int tOrig = treeOriginForest[tc];
  int *preds = predForest + tOrig;
  double *splitVal = numForest + tOrig;
  int *bumps = bumpForest + tOrig;

  int bump = bumps[idx];
  while (bump != 0) {
    int pred = preds[idx];
    idx += (rowT[pred] <= splitVal[idx] ? bump : bump + 1);
    bump = bumps[idx];
  }
  leaves[tc] = idx;
  \<close>
  \<open>walk_NumReg f rowT tOrig idx\<close> is the loop entered with the index \<open>idx\<close>; it reads
  \<^verbatim>\<open>bumps[idx]\<close> first, as the source does before the loop and at the end of each
  iteration. The loop need not terminate: \<open>None\<close> is the walk that runs forever.
\<close>

partial_function (option) walk_NumReg :: "Forest \<Rightarrow> real list \<Rightarrow> int \<Rightarrow> int \<Rightarrow> (fault + int) option" where
  "walk_NumReg f rowT tOrig idx =
     (case rd (bumpForest f) (tOrig + idx) of
        Inl e \<Rightarrow> Some (Inl e)
      | Inr bump \<Rightarrow>
          if bump \<noteq> 0 then
            (case rd (predForest f) (tOrig + idx) of
               Inl e \<Rightarrow> Some (Inl e)
             | Inr pred \<Rightarrow>
                 (case rd rowT pred of
                    Inl e \<Rightarrow> Some (Inl e)
                  | Inr x \<Rightarrow>
                      (case rd (numForest f) (tOrig + idx) of
                         Inl e \<Rightarrow> Some (Inl e)
                       | Inr sv \<Rightarrow>
                           walk_NumReg f rowT tOrig
                             (idx + (if x \<le> sv then bump else bump + 1)))))
          else Some (Inr idx))"

declare walk_NumReg.simps [code]

text \<open>
  \<^verbatim>\<open>
  for (int i = 0; i < nPred; i++)
    rowT[i] = Predictor::numBase[row + i* nRow];
  \<close>
  \<open>fill_rowT n\<close> is the first \<open>n\<close> iterations; the index is an \<^verbatim>\<open>unsigned int\<close>.
\<close>

primrec fill_rowT :: "nat \<Rightarrow> real list \<Rightarrow> nat \<Rightarrow> nat \<Rightarrow> real list \<Rightarrow> fault + real list" where
  "fill_rowT 0 numBase row nRow' rowT = Inr rowT"
| "fill_rowT (Suc i) numBase row nRow' rowT =
     (case fill_rowT i numBase row nRow' rowT of
        Inl e \<Rightarrow> Inl e
      | Inr rowT' \<Rightarrow>
          (let k = (row + i * nRow') mod 2 ^ 32 in
           if k < length numBase \<and> i < length rowT' then Inr (rowT'[i := numBase ! k])
           else Inl OutOfBounds))"

text \<open>
  \<^verbatim>\<open>
  for (tc = 0; tc < nTree; tc++) {
    if (useBag && InBag(tc, row)) {
      leaves[tc] = -1;
      continue;
    }
    ... the walk ...
    leaves[tc] = idx;
  }
  \<close>
  \<open>PredictRowNumReg_trees n\<close> is the first \<open>n\<close> iterations of the loop over the trees.
\<close>

definition wr_leaf :: "int list \<Rightarrow> nat \<Rightarrow> int \<Rightarrow> (fault + int list) option" where
  "wr_leaf leaves tc v =
     (if tc < length leaves then Some (Inr (leaves[tc := v])) else Some (Inl OutOfBounds))"

primrec PredictRowNumReg_trees :: "nat \<Rightarrow> nat \<Rightarrow> Forest \<Rightarrow> 32 word list \<Rightarrow> nat \<Rightarrow> real list
    \<Rightarrow> int list \<Rightarrow> bool \<Rightarrow> (fault + int list) option" where
  "PredictRowNumReg_trees 0 nTree' f inBag row rowT leaves useBag = Some (Inr leaves)"
| "PredictRowNumReg_trees (Suc tc) nTree' f inBag row rowT leaves useBag =
     (case PredictRowNumReg_trees tc nTree' f inBag row rowT leaves useBag of
        None \<Rightarrow> None
      | Some (Inl e) \<Rightarrow> Some (Inl e)
      | Some (Inr leaves') \<Rightarrow>
          (case (if useBag then InBag nTree' inBag tc row else Inr False) of
             Inl e \<Rightarrow> Some (Inl e)
           | Inr skip \<Rightarrow>
               if skip then wr_leaf leaves' tc (-1)
               else
                 (case rd (treeOriginForest f) (int tc) of
                    Inl e \<Rightarrow> Some (Inl e)
                  | Inr tOrig \<Rightarrow>
                      (case walk_NumReg f rowT tOrig 0 of
                         None \<Rightarrow> None
                       | Some (Inl e) \<Rightarrow> Some (Inl e)
                       | Some (Inr idx) \<Rightarrow> wr_leaf leaves' tc idx))))"

definition PredictRowNumReg :: "nat \<Rightarrow> nat \<Rightarrow> nat \<Rightarrow> real list \<Rightarrow> Forest \<Rightarrow> 32 word list
    \<Rightarrow> nat \<Rightarrow> real list \<Rightarrow> int list \<Rightarrow> bool \<Rightarrow> (fault + int list) option" where
  "PredictRowNumReg nTree' nRow' nPred' numBase f inBag row rowT leaves useBag =
     (case fill_rowT nPred' numBase row nRow' rowT of
        Inl e \<Rightarrow> Some (Inl e)
      | Inr rowT' \<Rightarrow> PredictRowNumReg_trees nTree' nTree' f inBag row rowT' leaves useBag)"

text \<open>
  The walker in the spec's words: start at the tree's origin; while \<open>lhBump[idx]\<close> is
  not 0, step by \<open>lhBump[idx]\<close> when \<open>x[predIdx[idx]] \<le> splitVal[idx]\<close> and by
  \<open>lhBump[idx] + 1\<close> otherwise; the index reached is the leaf. \<open>spec_walk f x tOrig idx
  leaf\<close> holds when the walk from the tree-relative index \<open>idx\<close> ends at \<open>leaf\<close>.
\<close>

inductive spec_walk :: "Forest \<Rightarrow> real list \<Rightarrow> int \<Rightarrow> int \<Rightarrow> int \<Rightarrow> bool" where
  spec_leaf:
    "rd (bumpForest f) (tOrig + idx) = Inr 0 \<Longrightarrow> spec_walk f x tOrig idx idx"
| spec_left:
    "rd (bumpForest f) (tOrig + idx) = Inr bump \<Longrightarrow> bump \<noteq> 0
     \<Longrightarrow> rd (predForest f) (tOrig + idx) = Inr pred \<Longrightarrow> rd x pred = Inr v
     \<Longrightarrow> rd (numForest f) (tOrig + idx) = Inr sv \<Longrightarrow> v \<le> sv
     \<Longrightarrow> spec_walk f x tOrig (idx + bump) leaf \<Longrightarrow> spec_walk f x tOrig idx leaf"
| spec_right:
    "rd (bumpForest f) (tOrig + idx) = Inr bump \<Longrightarrow> bump \<noteq> 0
     \<Longrightarrow> rd (predForest f) (tOrig + idx) = Inr pred \<Longrightarrow> rd x pred = Inr v
     \<Longrightarrow> rd (numForest f) (tOrig + idx) = Inr sv \<Longrightarrow> \<not> v \<le> sv
     \<Longrightarrow> spec_walk f x tOrig (idx + bump + 1) leaf \<Longrightarrow> spec_walk f x tOrig idx leaf"

text \<open>
  The aggregation of one row in \<^verbatim>\<open>PredictAcrossNumReg\<close> (the same lines stand in
  \<^verbatim>\<open>PredictAcrossFacReg\<close> and \<^verbatim>\<open>PredictAcrossMixedReg\<close>):
  \<^verbatim>\<open>
  double score = 0.0;
  int treesSeen = 0;
  ...
  for (int tc = 0; tc < nTree; tc++) {
    int leafIdx = leaves[tc];
    if (leafIdx >= 0) {
      treesSeen++;
      score +=  *(numForest + treeOriginForest[tc] + leafIdx);
    }
  }
  prediction[row] = score / treesSeen; // Assumes >= 1 tree seen.
  \<close>
  \<open>score_loop n\<close> is the pair \<open>(score, treesSeen)\<close> after the first \<open>n\<close> iterations.
\<close>

primrec score_loop :: "nat \<Rightarrow> Forest \<Rightarrow> int list \<Rightarrow> fault + (real \<times> int)" where
  "score_loop 0 f leaves = Inr (0, 0)"
| "score_loop (Suc tc) f leaves =
     (case score_loop tc f leaves of
        Inl e \<Rightarrow> Inl e
      | Inr (score, treesSeen) \<Rightarrow>
          (case rd leaves (int tc) of
             Inl e \<Rightarrow> Inl e
           | Inr leafIdx \<Rightarrow>
               if leafIdx \<ge> 0 then
                 (case rd (treeOriginForest f) (int tc) of
                    Inl e \<Rightarrow> Inl e
                  | Inr tOrig \<Rightarrow>
                      (case rd (numForest f) (tOrig + leafIdx) of
                         Inl e \<Rightarrow> Inl e
                       | Inr v \<Rightarrow> Inr (score + v, treesSeen + 1)))
               else Inr (score, treesSeen)))"

text \<open>
  The body of the row loop of \<^verbatim>\<open>PredictAcrossNumReg\<close>:
  \<^verbatim>\<open>
  int *leaves = predictLeaves + row * nTree;
  double *rowSlice = transpose + row * nPred;
  PredictRowNumReg(row, rowSlice, leaves, useBag);
  ... the aggregation ...
  \<close>
  The slice \<^verbatim>\<open>leaves\<close> is cut out of \<^verbatim>\<open>predictLeaves\<close> and written back; the slice of the
  scratch array \<^verbatim>\<open>transpose\<close> is overwritten in full before it is read, so it starts
  here as zeros. The state is the pair of \<^verbatim>\<open>prediction\<close> and \<^verbatim>\<open>predictLeaves\<close>.
\<close>

definition PredictAcrossNumReg_row :: "nat \<Rightarrow> nat \<Rightarrow> nat \<Rightarrow> real list \<Rightarrow> Forest \<Rightarrow> 32 word list
    \<Rightarrow> bool \<Rightarrow> nat \<Rightarrow> dbl list \<times> int list \<Rightarrow> (fault + (dbl list \<times> int list)) option" where
  "PredictAcrossNumReg_row nTree' nRow' nPred' numBase f inBag useBag row =
     (\<lambda>(prediction, predictLeaves).
        if row * nTree' + nTree' \<le> length predictLeaves then
          (let leaves = take nTree' (drop (row * nTree') predictLeaves);
               rowSlice = replicate nPred' 0
           in case PredictRowNumReg nTree' nRow' nPred' numBase f inBag row rowSlice leaves useBag of
                None \<Rightarrow> None
              | Some (Inl e) \<Rightarrow> Some (Inl e)
              | Some (Inr leaves') \<Rightarrow>
                  (case score_loop nTree' f leaves' of
                     Inl e \<Rightarrow> Some (Inl e)
                   | Inr (score, treesSeen) \<Rightarrow>
                       if row < length prediction then
                         Some (Inr (prediction[row := dbl_div score (real_of_int treesSeen)],
                                    take (row * nTree') predictLeaves @ leaves'
                                      @ drop (row * nTree' + nTree') predictLeaves))
                       else Some (Inl OutOfBounds)))
        else Some (Inl OutOfBounds))"

text \<open>
  \<open>PredictAcrossNumReg_rows n\<close> is the first \<open>n\<close> iterations of the row loop; the rows
  write disjoint slots, so the order of the parallel loop does not matter.
\<close>

primrec PredictAcrossNumReg_rows :: "nat \<Rightarrow> nat \<Rightarrow> nat \<Rightarrow> nat \<Rightarrow> real list \<Rightarrow> Forest
    \<Rightarrow> 32 word list \<Rightarrow> bool \<Rightarrow> dbl list \<times> int list
    \<Rightarrow> (fault + (dbl list \<times> int list)) option" where
  "PredictAcrossNumReg_rows 0 nTree' nRow' nPred' numBase f inBag useBag st = Some (Inr st)"
| "PredictAcrossNumReg_rows (Suc row) nTree' nRow' nPred' numBase f inBag useBag st =
     (case PredictAcrossNumReg_rows row nTree' nRow' nPred' numBase f inBag useBag st of
        None \<Rightarrow> None
      | Some (Inl e) \<Rightarrow> Some (Inl e)
      | Some (Inr st') \<Rightarrow>
          PredictAcrossNumReg_row nTree' nRow' nPred' numBase f inBag useBag row st')"

definition PredictAcrossNumReg :: "nat \<Rightarrow> nat \<Rightarrow> nat \<Rightarrow> real list \<Rightarrow> Forest \<Rightarrow> 32 word list
    \<Rightarrow> dbl list \<Rightarrow> int list \<Rightarrow> bool \<Rightarrow> (fault + (dbl list \<times> int list)) option" where
  "PredictAcrossNumReg nTree' nRow' nPred' numBase f inBag prediction predictLeaves useBag =
     PredictAcrossNumReg_rows nRow' nTree' nRow' nPred' numBase f inBag useBag
       (prediction, predictLeaves)"

text \<open>A forest of one single-leaf tree, on which the aggregation is evaluated.\<close>

definition ex_forest :: Forest where
  "ex_forest = \<lparr>treeOriginForest = [0], predForest = [0], numForest = [3], bumpForest = [0]\<rparr>"

text \<open>
  A packed forest that the walker can walk: the three node vectors have one length, every
  tree has an origin inside them, and every node with a nonzero bump has a positive bump
  that keeps both children inside the vectors, and a predictor index below \<open>nPred\<close>.
\<close>

definition forest_wf :: "Forest \<Rightarrow> nat \<Rightarrow> nat \<Rightarrow> bool" where
  "forest_wf f nTree' nPred' \<longleftrightarrow>
     length (predForest f) = length (bumpForest f)
     \<and> length (numForest f) = length (bumpForest f)
     \<and> length (treeOriginForest f) = nTree'
     \<and> (\<forall>t<nTree'. 0 \<le> treeOriginForest f ! t
            \<and> nat (treeOriginForest f ! t) < length (bumpForest f))
     \<and> (\<forall>i<length (bumpForest f). bumpForest f ! i \<noteq> 0 \<longrightarrow>
            0 < bumpForest f ! i
            \<and> int i + bumpForest f ! i + 1 < int (length (bumpForest f))
            \<and> 0 \<le> predForest f ! i \<and> nat (predForest f ! i) < nPred')"

text \<open>
  A forest of two trees on which the walker is instantiated: a stump on predictor 0 with
  cut 3/2 and leaves at 1 and 2, and a single leaf.
\<close>

definition ex_forest2 :: Forest where
  "ex_forest2 = \<lparr>treeOriginForest = [0, 3], predForest = [0, 0, 0, 0],
                  numForest = [3 / 2, 10, 20, 5], bumpForest = [1, 0, 0, 0]\<rparr>"

text \<open>
  A design matrix of \<open>2 ^ 30\<close> rows and 5 numeric predictors, stored by column as
  \<^verbatim>\<open>Predictor::numBase\<close> is, whose only nonzero value is predictor 0 of row 0; and a
  stump on predictor 4 with cut 1/2 and leaves at 1 and 2.
\<close>

definition ex_numBase_wide :: "real list" where
  "ex_numBase_wide = 1 # replicate (5 * 2 ^ 30 - 1) 0"

definition ex_stump4 :: Forest where
  "ex_stump4 = \<lparr>treeOriginForest = [0], predForest = [4, 0, 0],
                 numForest = [1 / 2, 10, 20], bumpForest = [1, 0, 0]\<rparr>"

text \<open>A forest of 65536 trees, each the single leaf at index 0.\<close>

definition ex_forest_wide :: Forest where
  "ex_forest_wide = \<lparr>treeOriginForest = replicate 65536 0, predForest = [0],
                      numForest = [5], bumpForest = [0]\<rparr>"

section \<open>splitsig.cc: replaying a split into the sample-to-node map\<close>

text \<open>
  Modelled from the spec: the restaging buffer \<^verbatim>\<open>SamplePred\<close> is not among the sources.
  The spec describes it as per-predictor vectors of tuples \<open>(rank, sIdx, yVal)\<close> with a
  multiplicity; the multiplicity \<^verbatim>\<open>sCount\<close> is the field \<open>sCount'\<close> here. A buffer is
  the vector of one predictor and source bit.
\<close>

record SPNode =
  rank :: nat
  sIdx :: nat
  yVal :: real
  sCount' :: nat














section \<open>Verified properties\<close>

subsection \<open>PreTree::RefineHeight\<close>

lemma shl1_u32_power:
  assumes "k < 31"
  shows "shl1_u32 (2 ^ k) = 2 ^ Suc k"
proof -
  have "(2::nat) ^ Suc k < 2 ^ 32"
    using assms by (intro power_strict_increasing) auto
  then show ?thesis by (simp add: shl1_u32_def)
qed

text \<open>
  Claim C8, as the code has it: started from an estimate \<open>2 ^ k\<close> that fits the
  32-bit word, and for an observed height below \<open>2 ^ 31\<close>, the loop of
  \<open>RefineHeight\<close> terminates and leaves a power of two \<open>2 ^ j\<close> that is strictly
  greater than the height and not below the previous estimate, and it is the smallest
  such power of two. So an estimate that already exceeds the height is kept, and
  otherwise the result is the smallest power of two strictly above the height.
\<close>

theorem RefineHeight_next_power_above:
  "k < 32 \<Longrightarrow> height < 2 ^ 31 \<Longrightarrow>
   \<exists>j. k \<le> j \<and> j < 32 \<and> RefineHeight (2 ^ k) height = Some (2 ^ j) \<and> height < 2 ^ j
     \<and> (\<forall>m. height < 2 ^ m \<and> k \<le> m \<longrightarrow> j \<le> m)"
proof (induction "31 - k" arbitrary: k)
  case 0
  then have k: "k = 31" by simp
  show ?case
    using 0(3) unfolding k by (subst RefineHeight.simps) (auto intro!: exI[of _ 31])
next
  case (Suc n)
  show ?case
  proof (cases "(2::nat) ^ k \<le> height")
    case False
    then show ?thesis
      using Suc.prems by (subst RefineHeight.simps) (auto intro!: exI[of _ k])
  next
    case True
    have k31: "k < 31" using Suc.hyps(2) by simp
    have n: "n = 31 - Suc k" using Suc.hyps(2) by simp
    have sk: "Suc k < 32" using k31 by simp
    from Suc.hyps(1)[OF n sk Suc.prems(2)]
    obtain j where j: "Suc k \<le> j" "j < 32" "RefineHeight (2 ^ Suc k) height = Some (2 ^ j)"
      "height < 2 ^ j" "\<forall>m. height < 2 ^ m \<and> Suc k \<le> m \<longrightarrow> j \<le> m"
      by blast
    have "\<forall>m. height < 2 ^ m \<and> k \<le> m \<longrightarrow> j \<le> m"
    proof (intro allI impI)
      fix m assume m: "height < 2 ^ m \<and> k \<le> m"
      have "m \<noteq> k" using True m by auto
      then show "j \<le> m" using j(5) m by (simp add: Suc_leI le_neq_implies_less)
    qed
    then show ?thesis
      using True j shl1_u32_power[OF k31]
      by (subst RefineHeight.simps) (auto intro!: exI[of _ j])
  qed
qed

theorem RefineHeight_next_power_above_witness:
  "(2::nat) < 32 \<and> (8::nat) < 2 ^ 31 \<and>
   (\<exists>j. 2 \<le> j \<and> j < 32 \<and> RefineHeight (2 ^ 2) 8 = Some (2 ^ j) \<and> (8::nat) < 2 ^ j
     \<and> (\<forall>m. (8::nat) < 2 ^ m \<and> 2 \<le> m \<longrightarrow> j \<le> m))"
  using RefineHeight_next_power_above [of 2 8] by simp

text \<open>
  The claim as stated fails twice. With estimate 4 and observed height 8 the smallest
  power of two not below the height is 8, but the loop runs on while the estimate equals
  the height and stops at 16. With estimate 16 and observed height 3 the smallest power
  of two not below the height is 4, but the loop does not run and the estimate stays 16.
\<close>

theorem RefineHeight_counterexample:
  "RefineHeight 4 8 = Some 16 \<and> RefineHeight 4 8 \<noteq> Some (2 ^ 3)
   \<and> RefineHeight 16 3 = Some 16 \<and> RefineHeight 16 3 \<noteq> Some (2 ^ 2)"
  by (simp add: RefineHeight.simps shl1_u32_def)

subsection \<open>SplitSig::ArgMax\<close>






subsection \<open>SplitSig::LevelInit and unwritten slots\<close>

lemma LevelInit_length:
  "length (levelSS (LevelInit ss sc raw)) = (nPred ss * sc) mod 2 ^ 32"
  by (simp add: LevelInit_def)

lemma LevelInit_info:
  "i < length (levelSS (LevelInit ss sc raw)) \<Longrightarrow>
   SSNode.info (levelSS (LevelInit ss sc raw) ! i) = - DBL_MAX"
  by (simp add: LevelInit_def SSNode_ctor_def)

lemma Write_frame:
  assumes "Write ss b p st sc lh gain = Inr ss'"
  shows "splitCount ss' = splitCount ss \<and> nPred ss' = nPred ss
     \<and> length (levelSS ss') = length (levelSS ss)
     \<and> (\<forall>i. i \<noteq> Lookup ss b p \<longrightarrow> levelSS ss' ! i = levelSS ss ! i)"
  using assms by (auto simp: Write_def Let_def split: if_splits)

lemma Writes_frame:
  assumes "Writes ss ws = Inr ss'"
  shows "splitCount ss' = splitCount ss \<and> nPred ss' = nPred ss
     \<and> length (levelSS ss') = length (levelSS ss)
     \<and> (\<forall>i. levelSS ss' ! i = levelSS ss ! i
            \<or> (\<exists>w\<in>set ws. Lookup ss (fst w) (fst (snd w)) = i))"
  using assms
proof (induction ws arbitrary: ss)
  case Nil
  then show ?case by simp
next
  case (Cons w ws)
  obtain b p st sc lh gain where w: "w = (b, p, st, sc, lh, gain)" by (cases w)
  from Cons.prems obtain ss1 where s1: "Write ss b p st sc lh gain = Inr ss1"
    and s2: "Writes ss1 ws = Inr ss'"
    by (auto simp: w split: sum.splits)
  note f1 = Write_frame[OF s1]
  note f2 = Cons.IH[OF s2]
  have lk: "Lookup ss1 = Lookup ss" using f1 by (simp add: Lookup_def fun_eq_iff)
  have "\<forall>i. levelSS ss' ! i = levelSS ss ! i
            \<or> (\<exists>w'\<in>set (w # ws). Lookup ss (fst w') (fst (snd w')) = i)"
  proof
    fix i
    show "levelSS ss' ! i = levelSS ss ! i
            \<or> (\<exists>w'\<in>set (w # ws). Lookup ss (fst w') (fst (snd w')) = i)"
    proof (cases "i = Lookup ss b p")
      case True
      then show ?thesis by (simp add: w)
    next
      case False
      then have e1: "levelSS ss1 ! i = levelSS ss ! i" using f1 by simp
      from f2 have "levelSS ss' ! i = levelSS ss1 ! i
            \<or> (\<exists>w'\<in>set ws. Lookup ss1 (fst w') (fst (snd w')) = i)" by blast
      then show ?thesis unfolding lk e1 by auto
    qed
  qed
  then show ?case using f1 f2 by simp
qed

lemma ArgMax_loop_Some:
  "ArgMax_loop ss p off am g = Inr (Some k) \<Longrightarrow>
   am = Some k \<or> (k < length (levelSS ss) \<and> g < SSNode.info (levelSS ss ! k))"
proof (induction ss p off am g rule: ArgMax_loop.induct)
  case (1 ss pIdx predOff argMax gainMax)
  show ?case
  proof (cases "pIdx < nPred ss \<and> predOff < length (levelSS ss)")
    case False
    then show ?thesis using "1.prems"
      by (subst (asm) ArgMax_loop.simps) (auto split: if_splits)
  next
    case rng: True
    show ?thesis
    proof (cases "gainMax < SSNode.info (levelSS ss ! predOff)")
      case True
      from "1.prems" have "ArgMax_loop ss (pIdx + 1) ((predOff + splitCount ss) mod 2 ^ 32)
          (Some predOff) (SSNode.info (levelSS ss ! predOff)) = Inr (Some k)"
        using rng True by (subst (asm) ArgMax_loop.simps) (simp add: Let_def)
      from "1.IH"(1)[OF _ _ refl _ this] rng True show ?thesis by auto
    next
      case False
      from "1.prems" have "ArgMax_loop ss (pIdx + 1) ((predOff + splitCount ss) mod 2 ^ 32)
          argMax gainMax = Inr (Some k)"
        using rng False by (subst (asm) ArgMax_loop.simps) (simp add: Let_def)
      from "1.IH"(2)[OF _ _ refl _ this] rng False show ?thesis by auto
    qed
  qed
qed

lemma DBL_MAX_pos: "0 < DBL_MAX"
  by (simp add: DBL_MAX_def)

text \<open>
  Claim C4: right after \<open>LevelInit\<close> every slot of the level matrix has \<open>info\<close> equal
  to \<open>- DBL_MAX\<close>; and after any run of \<open>Write\<close> calls on that matrix, for any
  nonnegative threshold, a slot returned by \<open>ArgMax\<close> is one that some \<open>Write\<close> of
  the run addressed.
\<close>

theorem LevelInit_unwritten_never_ArgMax:
  "(\<forall>i < length (levelSS (LevelInit ss0 sc raw)).
       SSNode.info (levelSS (LevelInit ss0 sc raw) ! i) = - DBL_MAX)
   \<and> (\<forall>ws ss levelIdx gainMax k.
         Writes (LevelInit ss0 sc raw) ws = Inr ss \<and> 0 \<le> gainMax
         \<and> ArgMax ss levelIdx gainMax = Inr (Some k)
         \<longrightarrow> (\<exists>w\<in>set ws. Lookup ss (fst w) (fst (snd w)) = k))"
proof (intro conjI allI impI)
  fix i assume "i < length (levelSS (LevelInit ss0 sc raw))"
  then show "SSNode.info (levelSS (LevelInit ss0 sc raw) ! i) = - DBL_MAX"
    by (rule LevelInit_info)
next
  fix ws ss levelIdx gainMax k
  assume a: "Writes (LevelInit ss0 sc raw) ws = Inr ss \<and> 0 \<le> gainMax
         \<and> ArgMax ss levelIdx gainMax = Inr (Some k)"
  let ?s = "LevelInit ss0 sc raw"
  note fr = Writes_frame[OF a[THEN conjunct1]]
  from a have "ArgMax_loop ss 0 levelIdx None gainMax = Inr (Some k)"
    by (simp add: ArgMax_def)
  from ArgMax_loop_Some[OF this] have k: "k < length (levelSS ss)"
    and gk: "gainMax < SSNode.info (levelSS ss ! k)" by auto
  have lk: "Lookup ss = Lookup ?s" using fr by (simp add: Lookup_def fun_eq_iff)
  show "\<exists>w\<in>set ws. Lookup ss (fst w) (fst (snd w)) = k"
  proof (rule ccontr)
    assume "\<not> ?thesis"
    then have "levelSS ss ! k = levelSS ?s ! k" using fr lk by auto
    moreover have "SSNode.info (levelSS ?s ! k) = - DBL_MAX"
      using k fr by (intro LevelInit_info) simp
    ultimately show False using gk a DBL_MAX_pos by simp
  qed
qed

theorem LevelInit_unwritten_never_ArgMax_witness:
  "Writes (LevelInit ex_ss0 1 ex_raw) [(0, 1, -1, 3, 2, 1 / 2)] = Inr ex_written
   \<and> (0::real) \<le> 0 \<and> ArgMax ex_written 0 0 = Inr (Some 1)
   \<and> (\<exists>w\<in>set [(0, 1, -1, 3, 2, 1 / 2) :: write_call]. Lookup ex_written (fst w) (fst (snd w)) = 1)
   \<and> (1::nat) < length (levelSS (LevelInit ex_ss0 1 ex_raw))
   \<and> SSNode.info (levelSS (LevelInit ex_ss0 1 ex_raw) ! 1) = - DBL_MAX"
proof -
  have ev0: "(1::nat) < length (levelSS (LevelInit ex_ss0 1 ex_raw))"
    by (simp add: LevelInit_def ex_ss0_def)
  have ev1: "Writes (LevelInit ex_ss0 1 ex_raw) [(0, 1, -1, 3, 2, 1 / 2)] = Inr ex_written"
    by (simp add: LevelInit_def ex_ss0_def ex_raw_def ex_written_def Write_def Lookup_def
        SSNode_ctor_def upt_rec)
  have ev2: "ArgMax ex_written 0 0 = Inr (Some 1)"
    by (simp add: ArgMax_def ex_written_def ArgMax_loop.simps DBL_MAX_def)
  from LevelInit_unwritten_never_ArgMax[of ex_ss0 1 ex_raw] ev0 ev1 ev2 show ?thesis
    by blast
qed

subsection \<open>PreTree storage: ReNodes, ReBits, CheckStorage\<close>

lemma copy_loop_eq:
  "copy_loop n src dst =
     (if n \<le> length src \<and> n \<le> length dst then Inr (take n src @ drop n dst)
      else Inl OutOfBounds)"
proof (induction n)
  case 0
  then show ?case by simp
next
  case (Suc n)
  show ?case
  proof (cases "Suc n \<le> length src \<and> Suc n \<le> length dst")
    case True
    then have n: "n < length src" "n < length dst" by auto
    have upd: "(take n src @ drop n dst)[n := src ! n] = take (Suc n) src @ drop (Suc n) dst"
    proof (rule nth_equalityI)
      show "length ((take n src @ drop n dst)[n := src ! n])
          = length (take (Suc n) src @ drop (Suc n) dst)"
        using n by simp
    next
      fix i assume "i < length ((take n src @ drop n dst)[n := src ! n])"
      then show "(take n src @ drop n dst)[n := src ! n] ! i
          = (take (Suc n) src @ drop (Suc n) dst) ! i"
        using n by (cases "i < n"; cases "i = n") (auto simp: nth_append nth_list_update)
    qed
    show ?thesis using True n Suc.IH by (simp add: upd)
  next
    case False
    then show ?thesis using Suc.IH by (auto simp: not_le less_Suc_eq_le)
  qed
qed

lemma ReNodes_doubles:
  assumes "length (nodeVec pt) = nodeCount pt" "treeHeight pt \<le> nodeCount pt"
    "2 * nodeCount pt \<le> INT_MAX"
  shows "\<exists>p. ReNodes raw pt = Inr p \<and> nodeCount p = 2 * nodeCount pt
      \<and> length (nodeVec p) = nodeCount p \<and> treeHeight p = treeHeight pt
      \<and> bitLength p = bitLength pt \<and> treeSplitBits p = treeSplitBits pt
      \<and> treeBitOffset p = treeBitOffset pt
      \<and> (\<forall>i<treeHeight pt. nodeVec p ! i = nodeVec pt ! i)"
  using assms by (simp add: ReNodes_def copy_loop_eq Let_def nth_append not_less)

lemma ReBits_doubles:
  assumes "0 < nPredFac" "length (treeSplitBits pt) = bitLength pt"
    "treeBitOffset pt \<le> bitLength pt" "2 * bitLength pt \<le> INT_MAX"
    "bitLength pt = 0 \<longrightarrow> nodeCount pt * maxFacCard \<le> INT_MAX"
  shows "\<exists>p. ReBits nPredFac maxFacCard pt = Inr p
      \<and> (0 < bitLength pt \<longrightarrow> bitLength p = 2 * bitLength pt)
      \<and> length (treeSplitBits p) = bitLength p \<and> treeBitOffset p = treeBitOffset pt
      \<and> treeBitOffset p \<le> bitLength p
      \<and> nodeCount p = nodeCount pt \<and> nodeVec p = nodeVec pt \<and> treeHeight p = treeHeight pt
      \<and> (\<forall>i<treeBitOffset pt. treeSplitBits p ! i = treeSplitBits pt ! i)"
proof (cases "bitLength pt = 0")
  case True
  then have bf: "BitFactory nPredFac maxFacCard pt 0
      = Inr (pt\<lparr>bitLength := nodeCount pt * maxFacCard\<rparr>,
             replicate (nodeCount pt * maxFacCard) False)"
    using assms(1,5) by (simp add: BitFactory_def not_less Let_def)
  show ?thesis
    using True assms(2,3,4) by (simp add: ReBits_def bf copy_loop_eq not_less)
next
  case False
  then have bf: "BitFactory nPredFac maxFacCard pt (2 * bitLength pt)
      = Inr (pt\<lparr>bitLength := 2 * bitLength pt\<rparr>, replicate (2 * bitLength pt) False)"
    using assms(1,4) by (simp add: BitFactory_def not_less Let_def)
  show ?thesis
    using False assms(2,3,4) by (simp add: ReBits_def bf copy_loop_eq not_less nth_append)
qed

lemma CheckStorage_capacity:
  assumes "length (nodeVec pt) = nodeCount pt" "treeHeight pt \<le> nodeCount pt"
    and "0 < nPredFac \<longrightarrow> length (treeSplitBits pt) = bitLength pt
           \<and> treeBitOffset pt \<le> bitLength pt \<and> 2 * bitLength pt \<le> INT_MAX
           \<and> 2 * nodeCount pt * maxFacCard \<le> INT_MAX
           \<and> treeBitOffset pt + splitNext * maxFacCard \<le> INT_MAX"
    and "2 * nodeCount pt \<le> INT_MAX" "treeHeight pt + splitNext + leafNext \<le> INT_MAX"
  shows "\<exists>p. CheckStorage nPredFac maxFacCard raw pt splitNext leafNext = Inr p
      \<and> nodeCount p = (if treeHeight pt + splitNext + leafNext > nodeCount pt
                         then 2 * nodeCount pt else nodeCount pt)
      \<and> length (nodeVec p) = nodeCount p \<and> treeHeight p = treeHeight pt
      \<and> (\<forall>i<treeHeight pt. nodeVec p ! i = nodeVec pt ! i)
      \<and> (0 < nPredFac \<longrightarrow> length (treeSplitBits p) = bitLength p
           \<and> treeBitOffset p \<le> bitLength p)"
proof -
  let ?first = "if treeHeight pt + splitNext + leafNext > nodeCount pt then ReNodes raw pt
            else Inr pt"
  obtain p1 where p1: "?first = Inr p1"
    "nodeCount p1 = (if treeHeight pt + splitNext + leafNext > nodeCount pt
                         then 2 * nodeCount pt else nodeCount pt)"
    "length (nodeVec p1) = nodeCount p1" "treeHeight p1 = treeHeight pt"
    "bitLength p1 = bitLength pt" "treeSplitBits p1 = treeSplitBits pt"
    "treeBitOffset p1 = treeBitOffset pt"
    "\<forall>i<treeHeight pt. nodeVec p1 ! i = nodeVec pt ! i"
  proof (cases "treeHeight pt + splitNext + leafNext > nodeCount pt")
    case True
    with ReNodes_doubles[OF assms(1,2,4), of raw] that show ?thesis by auto
  next
    case False
    with assms that[of pt] show ?thesis by auto
  qed
  have no: "\<not> treeHeight pt + splitNext + leafNext > INT_MAX"
    using assms(5) by simp
  have cs: "CheckStorage nPredFac maxFacCard raw pt splitNext leafNext
      = (if nPredFac > 0 then
               (if treeBitOffset p1 + splitNext * maxFacCard > INT_MAX then Inl Overflow
                else if treeBitOffset p1 + splitNext * maxFacCard > bitLength p1
                then ReBits nPredFac maxFacCard p1 else Inr p1)
             else Inr p1)"
    unfolding CheckStorage_def if_not_P[OF no] p1(1) by simp
  show ?thesis
  proof (cases "0 < nPredFac \<and> treeBitOffset p1 + splitNext * maxFacCard > bitLength p1")
    case False
    have "0 < nPredFac \<longrightarrow> \<not> treeBitOffset p1 + splitNext * maxFacCard > INT_MAX"
      using assms(3) p1(7) by (simp add: not_less)
    with False have "CheckStorage nPredFac maxFacCard raw pt splitNext leafNext = Inr p1"
      unfolding cs by auto
    then show ?thesis using p1 assms(3) by auto
  next
    case True
    have f: "length (treeSplitBits p1) = bitLength p1" "treeBitOffset p1 \<le> bitLength p1"
      "2 * bitLength p1 \<le> INT_MAX"
      using True assms(3) p1 by auto
    have "nodeCount p1 \<le> 2 * nodeCount pt" using p1(2) by simp
    then have g1: "nodeCount p1 * maxFacCard \<le> 2 * nodeCount pt * maxFacCard"
      by (rule mult_le_mono1)
    have g2: "2 * nodeCount pt * maxFacCard \<le> INT_MAX" using True assms(3) by simp
    have g: "bitLength p1 = 0 \<longrightarrow> nodeCount p1 * maxFacCard \<le> INT_MAX"
      using le_trans[OF g1 g2] by (rule impI)
    have np: "0 < nPredFac" using True by simp
    from ReBits_doubles[OF np f g]
    obtain p2 where p2: "ReBits nPredFac maxFacCard p1 = Inr p2"
      "length (treeSplitBits p2) = bitLength p2" "treeBitOffset p2 \<le> bitLength p2"
      "nodeCount p2 = nodeCount p1" "nodeVec p2 = nodeVec p1" "treeHeight p2 = treeHeight p1"
      by auto
    have "\<not> treeBitOffset p1 + splitNext * maxFacCard > INT_MAX"
      using np assms(3) p1(7) by (simp add: not_less)
    with True have "CheckStorage nPredFac maxFacCard raw pt splitNext leafNext = Inr p2"
      unfolding cs using p2(1) by auto
    then show ?thesis using p1 p2 by auto
  qed
qed

text \<open>
  Claim C10, as the code has it. On a pre-tree whose node vector has \<open>nodeCount\<close>
  entries with the watermark \<open>treeHeight\<close> within it, and whose doubled \<open>nodeCount\<close>
  fits an \<^verbatim>\<open>int\<close>, \<open>ReNodes\<close> doubles \<open>nodeCount\<close> and leaves the nodes below
  \<open>treeHeight\<close> as they were. With factor predictors and a bit vector of
  \<open>bitLength > 0\<close> entries holding the offset \<open>treeBitOffset\<close>, the doubled
  \<open>bitLength\<close> fitting an \<^verbatim>\<open>int\<close>, \<open>ReBits\<close> doubles \<open>bitLength\<close> and leaves the bits
  below \<open>treeBitOffset\<close> as they were. \<open>CheckStorage\<close> reallocates at most once: when
  the demand \<open>treeHeight + splitNext + leafNext\<close> is at most twice the node capacity it
  had, and the doubled capacities and the bit demand fit an \<^verbatim>\<open>int\<close>, the capacity it
  leaves covers the demand, and the nodes below \<open>treeHeight\<close> are as they were.
\<close>

theorem PreTree_reallocation:
  "(length (nodeVec pt) = nodeCount pt \<and> treeHeight pt \<le> nodeCount pt
      \<and> 2 * nodeCount pt \<le> INT_MAX \<longrightarrow>
      (\<exists>p. ReNodes raw pt = Inr p \<and> nodeCount p = 2 * nodeCount pt
         \<and> length (nodeVec p) = nodeCount p \<and> treeHeight p = treeHeight pt
         \<and> (\<forall>i<treeHeight pt. nodeVec p ! i = nodeVec pt ! i)))
   \<and> (0 < nPredFac \<and> 0 < bitLength pt \<and> length (treeSplitBits pt) = bitLength pt
        \<and> treeBitOffset pt \<le> bitLength pt \<and> 2 * bitLength pt \<le> INT_MAX \<longrightarrow>
      (\<exists>p. ReBits nPredFac maxFacCard pt = Inr p \<and> bitLength p = 2 * bitLength pt
         \<and> length (treeSplitBits p) = bitLength p \<and> treeBitOffset p = treeBitOffset pt
         \<and> (\<forall>i<treeBitOffset pt. treeSplitBits p ! i = treeSplitBits pt ! i)))
   \<and> (length (nodeVec pt) = nodeCount pt \<and> treeHeight pt \<le> nodeCount pt
        \<and> 2 * nodeCount pt \<le> INT_MAX
        \<and> (0 < nPredFac \<longrightarrow> length (treeSplitBits pt) = bitLength pt
              \<and> treeBitOffset pt \<le> bitLength pt \<and> 2 * bitLength pt \<le> INT_MAX
              \<and> 2 * nodeCount pt * maxFacCard \<le> INT_MAX
              \<and> treeBitOffset pt + splitNext * maxFacCard \<le> INT_MAX)
        \<and> treeHeight pt + splitNext + leafNext \<le> 2 * nodeCount pt \<longrightarrow>
      (\<exists>p. CheckStorage nPredFac maxFacCard raw pt splitNext leafNext = Inr p
         \<and> treeHeight p + splitNext + leafNext \<le> nodeCount p
         \<and> (\<forall>i<treeHeight pt. nodeVec p ! i = nodeVec pt ! i)))"
proof (intro conjI impI)
  assume "length (nodeVec pt) = nodeCount pt \<and> treeHeight pt \<le> nodeCount pt
      \<and> 2 * nodeCount pt \<le> INT_MAX"
  then show "\<exists>p. ReNodes raw pt = Inr p \<and> nodeCount p = 2 * nodeCount pt
         \<and> length (nodeVec p) = nodeCount p \<and> treeHeight p = treeHeight pt
         \<and> (\<forall>i<treeHeight pt. nodeVec p ! i = nodeVec pt ! i)"
    using ReNodes_doubles[of pt raw] by blast
next
  assume a: "0 < nPredFac \<and> 0 < bitLength pt \<and> length (treeSplitBits pt) = bitLength pt
        \<and> treeBitOffset pt \<le> bitLength pt \<and> 2 * bitLength pt \<le> INT_MAX"
  then have g: "bitLength pt = 0 \<longrightarrow> nodeCount pt * maxFacCard \<le> INT_MAX" by simp
  from a have h: "0 < nPredFac" "length (treeSplitBits pt) = bitLength pt"
    "treeBitOffset pt \<le> bitLength pt" "2 * bitLength pt \<le> INT_MAX" "0 < bitLength pt"
    by simp_all
  from ReBits_doubles[OF h(1-4) g] h(5)
  show "\<exists>p. ReBits nPredFac maxFacCard pt = Inr p \<and> bitLength p = 2 * bitLength pt
         \<and> length (treeSplitBits p) = bitLength p \<and> treeBitOffset p = treeBitOffset pt
         \<and> (\<forall>i<treeBitOffset pt. treeSplitBits p ! i = treeSplitBits pt ! i)"
    by blast
next
  assume a: "length (nodeVec pt) = nodeCount pt \<and> treeHeight pt \<le> nodeCount pt
        \<and> 2 * nodeCount pt \<le> INT_MAX
        \<and> (0 < nPredFac \<longrightarrow> length (treeSplitBits pt) = bitLength pt
              \<and> treeBitOffset pt \<le> bitLength pt \<and> 2 * bitLength pt \<le> INT_MAX
              \<and> 2 * nodeCount pt * maxFacCard \<le> INT_MAX
              \<and> treeBitOffset pt + splitNext * maxFacCard \<le> INT_MAX)
        \<and> treeHeight pt + splitNext + leafNext \<le> 2 * nodeCount pt"
  then have d: "treeHeight pt + splitNext + leafNext \<le> INT_MAX" by linarith
  from a d CheckStorage_capacity[of pt nPredFac maxFacCard splitNext leafNext raw]
  obtain p where p: "CheckStorage nPredFac maxFacCard raw pt splitNext leafNext = Inr p"
      "nodeCount p = (if treeHeight pt + splitNext + leafNext > nodeCount pt
                         then 2 * nodeCount pt else nodeCount pt)"
      "treeHeight p = treeHeight pt" "\<forall>i<treeHeight pt. nodeVec p ! i = nodeVec pt ! i"
    by blast
  have "treeHeight p + splitNext + leafNext \<le> nodeCount p"
    using a p(2,3) by (auto split: if_splits)
  then show "\<exists>p. CheckStorage nPredFac maxFacCard raw pt splitNext leafNext = Inr p
         \<and> treeHeight p + splitNext + leafNext \<le> nodeCount p
         \<and> (\<forall>i<treeHeight pt. nodeVec p ! i = nodeVec pt ! i)"
    using p by blast
qed

theorem PreTree_reallocation_witness:
  "length (nodeVec ex_pt) = nodeCount ex_pt \<and> treeHeight ex_pt \<le> nodeCount ex_pt
   \<and> 2 * nodeCount ex_pt \<le> INT_MAX
   \<and> (0::nat) < 1 \<and> 0 < bitLength ex_pt \<and> length (treeSplitBits ex_pt) = bitLength ex_pt
   \<and> treeBitOffset ex_pt \<le> bitLength ex_pt \<and> 2 * bitLength ex_pt \<le> INT_MAX
   \<and> 2 * nodeCount ex_pt * 3 \<le> INT_MAX \<and> treeBitOffset ex_pt + 2 * 3 \<le> INT_MAX
   \<and> treeHeight ex_pt + 2 + 2 \<le> 2 * nodeCount ex_pt
   \<and> (\<exists>p. ReNodes ex_rawPT ex_pt = Inr p \<and> nodeCount p = 8
         \<and> nodeVec p ! 0 = nodeVec ex_pt ! 0)
   \<and> (\<exists>p. ReBits 1 3 ex_pt = Inr p \<and> bitLength p = 24)
   \<and> (\<exists>p. CheckStorage 1 3 ex_rawPT ex_pt 2 2 = Inr p
         \<and> treeHeight p + 2 + 2 \<le> nodeCount p)"
proof -
  have h: "length (nodeVec ex_pt) = nodeCount ex_pt" "treeHeight ex_pt \<le> nodeCount ex_pt"
    "0 < bitLength ex_pt" "length (treeSplitBits ex_pt) = bitLength ex_pt"
    "treeBitOffset ex_pt \<le> bitLength ex_pt" "treeHeight ex_pt + 2 + 2 \<le> 2 * nodeCount ex_pt"
    "nodeCount ex_pt = 4" "bitLength ex_pt = 12" "treeHeight ex_pt = 1"
    "2 * nodeCount ex_pt \<le> INT_MAX" "2 * bitLength ex_pt \<le> INT_MAX"
    "2 * nodeCount ex_pt * 3 \<le> INT_MAX" "treeBitOffset ex_pt + 2 * 3 \<le> INT_MAX"
    by (simp_all add: ex_pt_def INT_MAX_def)
  from PreTree_reallocation[of ex_pt ex_rawPT 1 3 2 2] h show ?thesis
    by fastforce
qed

text \<open>
  The capacity part of the claim as stated fails when the demand exceeds twice the
  capacity: with capacity 4, watermark 1 and a demand of 4 splits and 4 leaves,
  \<open>CheckStorage\<close> doubles once to 8, below the 9 nodes asked for. And the doubling
  itself fails when it leaves the range of \<^verbatim>\<open>int\<close>: at a capacity of \<open>2 ^ 30\<close> nodes
  \<open>ReNodes\<close> does not deliver a doubled vector.
\<close>

theorem CheckStorage_counterexample:
  "map_sum id nodeCount (CheckStorage 0 0 ex_rawPT ex_pt 4 4) = Inr 8
   \<and> map_sum id treeHeight (CheckStorage 0 0 ex_rawPT ex_pt 4 4) = Inr 1
   \<and> \<not> ((1::nat) + 4 + 4 \<le> 8)
   \<and> nodeCount ex_pt_big = 2 ^ 30
   \<and> ReNodes ex_rawPT ex_pt_big = Inl Overflow"
  by (simp add: CheckStorage_def ReNodes_def copy_loop_eq ex_pt_def ex_pt_big_def INT_MAX_def)

subsection \<open>PreTree::ConsumeNodes\<close>

lemma grown_inv:
  "grown pt \<Longrightarrow> PreTree_inv pt"
proof (induction rule: grown.induct)
  case (grown_ctor heightEst nPredFac maxFacCard raw rawBitLength pt)
  then show ?case
    by (auto simp: PreTree_ctor_def BitFactory_def PreTree_inv_def Let_def
        split: if_splits sum.splits)
next
  case (grown_CheckStorage pt nPredFac maxFacCard raw splitNext leafNext pt')
  from grown_CheckStorage.hyps(2)
  have "treeHeight pt' = treeHeight pt \<and> length (nodeVec pt') = nodeCount pt'
      \<and> (\<forall>i<treeHeight pt. nodeVec pt' ! i = nodeVec pt ! i)
      \<and> length (nodeVec pt) \<le> length (nodeVec pt')"
    using grown_CheckStorage.IH
    by (auto simp: CheckStorage_def ReNodes_def ReBits_def BitFactory_def copy_loop_eq Let_def
        PreTree_inv_def nth_append split: if_splits sum.splits)
  then show ?case using grown_CheckStorage.IH by (simp add: PreTree_inv_def)
next
  case (grown_TerminalOffspring pt parId pt' lh rh)
  note iv = grown_TerminalOffspring.IH[unfolded PreTree_inv_def]
  let ?h = "treeHeight pt"
  from grown_TerminalOffspring.hyps(3)
  have rng: "?h + 1 < length (nodeVec pt)"
    and pt': "pt' = pt\<lparr>nodeVec := (nodeVec pt)[parId := (nodeVec pt ! parId)\<lparr>lhId := int ?h\<rparr>,
                  ?h := ((nodeVec pt)[parId := (nodeVec pt ! parId)\<lparr>lhId := int ?h\<rparr>] ! ?h)
                          \<lparr>id' := int ?h, lhId := -1\<rparr>,
                  ?h + 1 := ((nodeVec pt)[parId := (nodeVec pt ! parId)\<lparr>lhId := int ?h\<rparr>,
                              ?h := ((nodeVec pt)[parId := (nodeVec pt ! parId)\<lparr>lhId := int ?h\<rparr>] ! ?h)
                                \<lparr>id' := int ?h, lhId := -1\<rparr>] ! (?h + 1))
                          \<lparr>id' := int (?h + 1), lhId := -1\<rparr>],
               treeHeight := ?h + 2, leafCount := leafCount pt + 2\<rparr>"
    by (auto simp: TerminalOffspring_def Let_def split: if_splits)
  have par: "parId < ?h" by fact
  show ?case
    unfolding PreTree_inv_def
  proof (intro conjI allI impI)
    fix i assume "i < treeHeight pt'"
    then have i: "i < ?h + 2" by (simp add: pt')
    consider "i = parId" | "i < ?h" "i \<noteq> parId" | "i = ?h" | "i = ?h + 1"
      using i by linarith
    then show "id' (nodeVec pt' ! i) = int i"
      using iv par rng by cases (auto simp: pt' nth_list_update)
    consider "i = parId" | "i < ?h" "i \<noteq> parId" | "i = ?h" | "i = ?h + 1"
      using i by linarith
    then show "lhId (nodeVec pt' ! i) = -1
        \<or> (int i < lhId (nodeVec pt' ! i) \<and> lhId (nodeVec pt' ! i) < int (treeHeight pt'))"
    proof cases
      case 2
      then have "nodeVec pt' ! i = nodeVec pt ! i" using rng by (simp add: pt')
      moreover have "lhId (nodeVec pt ! i) = -1
        \<or> (int i < lhId (nodeVec pt ! i) \<and> lhId (nodeVec pt ! i) < int ?h)"
        using iv 2 by blast
      ultimately show ?thesis by (auto simp: pt')
    qed (use iv par rng in \<open>auto simp: pt' nth_list_update\<close>)
  qed (use iv rng in \<open>auto simp: pt'\<close>)
next
  case (grown_NonTerminal pt nodeId gain sv pIdx pt')
  from grown_NonTerminal.hyps(3)
  have rng: "nodeId < length (nodeVec pt)"
    and pt': "pt' = pt\<lparr>nodeVec := (nodeVec pt)[nodeId := (nodeVec pt ! nodeId)
                    \<lparr>PTNode.predIdx := pIdx, PTNode.info := gain, splitVal := sv\<rparr>],
                leafCount := leafCount pt - 1\<rparr>"
    by (auto simp: NonTerminal_def split: if_splits)
  have same: "id' (nodeVec pt' ! i) = id' (nodeVec pt ! i)
      \<and> lhId (nodeVec pt' ! i) = lhId (nodeVec pt ! i)" for i
    using rng by (cases "i = nodeId") (simp_all add: pt')
  show ?case using grown_NonTerminal.IH
    by (simp add: PreTree_inv_def same) (simp add: pt')
qed

lemma ConsumeNodes_loop_eq:
  assumes "n \<le> length nv" "n \<le> length a" "n \<le> length b" "n \<le> length c"
  shows "\<exists>a' b' c'. ConsumeNodes_loop n nv (a, b, c) = Inr (a', b', c')
     \<and> length a' = length a \<and> length b' = length b \<and> length c' = length c
     \<and> (\<forall>i<n. (a' ! i, b' ! i, c' ! i) = Consume (nv ! i) (a ! i, b ! i, c ! i))
     \<and> (\<forall>i\<ge>n. a' ! i = a ! i \<and> b' ! i = b ! i \<and> c' ! i = c ! i)"
  using assms
proof (induction n)
  case 0
  then show ?case by simp
next
  case (Suc n)
  then obtain a1 b1 c1 where r: "ConsumeNodes_loop n nv (a, b, c) = Inr (a1, b1, c1)"
    "length a1 = length a" "length b1 = length b" "length c1 = length c"
    "\<forall>i<n. (a1 ! i, b1 ! i, c1 ! i) = Consume (nv ! i) (a ! i, b ! i, c ! i)"
    "\<forall>i\<ge>n. a1 ! i = a ! i \<and> b1 ! i = b ! i \<and> c1 ! i = c ! i"
    by fastforce
  obtain p q r' where cn: "Consume (nv ! n) (a1 ! n, b1 ! n, c1 ! n) = (p, q, r')"
    by (cases "Consume (nv ! n) (a1 ! n, b1 ! n, c1 ! n)")
  have same: "a1 ! n = a ! n" "b1 ! n = b ! n" "c1 ! n = c ! n" using r(6) by auto
  have step: "ConsumeNodes_loop (Suc n) nv (a, b, c) = Inr (a1[n := p], b1[n := q], c1[n := r'])"
    using Suc.prems r(1-4) cn by simp
  show ?case
  proof (intro exI conjI allI impI)
    show "ConsumeNodes_loop (Suc n) nv (a, b, c) = Inr (a1[n := p], b1[n := q], c1[n := r'])"
      by (rule step)
  next
    fix i assume "i < Suc n"
    then show "(a1[n := p] ! i, b1[n := q] ! i, c1[n := r'] ! i)
        = Consume (nv ! i) (a ! i, b ! i, c ! i)"
      using r(2-5) Suc.prems cn same by (cases "i = n") (auto simp: nth_list_update)
  next
    fix i assume "Suc n \<le> i"
    then show "a1[n := p] ! i = a ! i" "b1[n := q] ! i = b ! i" "c1[n := r'] ! i = c ! i"
      using r(6) by auto
  qed (use r in auto)
qed

text \<open>
  Claim C5: for every pre-tree that training can build and every index \<open>i\<close> below its
  height, \<open>ConsumeNodes\<close> writes for a node with \<open>lhId > 0\<close> the triple
  \<open>(predIdx, splitVal, lhId - id)\<close>, and for any other node the bump 0, leaving the two
  other slots as the scoring wrote them; and the bump written at \<open>i\<close> is 0 if and only
  if node \<open>i\<close> is terminal (\<open>lhId = -1\<close>).
\<close>

theorem ConsumeNodes_bump_zero_iff_terminal:
  assumes "grown pt" "treeHeight pt \<le> length nodeVal" "treeHeight pt \<le> length numVec"
    "treeHeight pt \<le> length bumpVec"
  shows "\<exists>nodeVal' numVec' bumpVec'.
      ConsumeNodes pt nodeVal numVec bumpVec = Inr (nodeVal', numVec', bumpVec')
      \<and> (\<forall>i<treeHeight pt.
            (0 < lhId (nodeVec pt ! i) \<longrightarrow>
                nodeVal' ! i = PTNode.predIdx (nodeVec pt ! i)
              \<and> numVec' ! i = splitVal (nodeVec pt ! i)
              \<and> bumpVec' ! i = lhId (nodeVec pt ! i) - id' (nodeVec pt ! i))
          \<and> (\<not> 0 < lhId (nodeVec pt ! i) \<longrightarrow>
                nodeVal' ! i = nodeVal ! i \<and> numVec' ! i = numVec ! i \<and> bumpVec' ! i = 0)
          \<and> (bumpVec' ! i = 0 \<longleftrightarrow> lhId (nodeVec pt ! i) = -1))"
proof -
  note iv = grown_inv[OF assms(1), unfolded PreTree_inv_def]
  from iv have "treeHeight pt \<le> length (nodeVec pt)" by simp
  from ConsumeNodes_loop_eq[OF this assms(2-4)]
  obtain a' b' c' where r: "ConsumeNodes pt nodeVal numVec bumpVec = Inr (a', b', c')"
    "\<forall>i<treeHeight pt. (a' ! i, b' ! i, c' ! i)
        = Consume (nodeVec pt ! i) (nodeVal ! i, numVec ! i, bumpVec ! i)"
    unfolding ConsumeNodes_def by blast
  have "\<forall>i<treeHeight pt.
            (0 < lhId (nodeVec pt ! i) \<longrightarrow>
                a' ! i = PTNode.predIdx (nodeVec pt ! i)
              \<and> b' ! i = splitVal (nodeVec pt ! i)
              \<and> c' ! i = lhId (nodeVec pt ! i) - id' (nodeVec pt ! i))
          \<and> (\<not> 0 < lhId (nodeVec pt ! i) \<longrightarrow>
                a' ! i = nodeVal ! i \<and> b' ! i = numVec ! i \<and> c' ! i = 0)
          \<and> (c' ! i = 0 \<longleftrightarrow> lhId (nodeVec pt ! i) = -1)"
  proof (intro allI impI)
    fix i assume i: "i < treeHeight pt"
    have c: "(a' ! i, b' ! i, c' ! i)
        = Consume (nodeVec pt ! i) (nodeVal ! i, numVec ! i, bumpVec ! i)"
      using r(2) i by blast
    have n: "id' (nodeVec pt ! i) = int i" "lhId (nodeVec pt ! i) = -1
        \<or> (int i < lhId (nodeVec pt ! i) \<and> lhId (nodeVec pt ! i) < int (treeHeight pt))"
      using iv i by blast+
    show "(0 < lhId (nodeVec pt ! i) \<longrightarrow>
                a' ! i = PTNode.predIdx (nodeVec pt ! i)
              \<and> b' ! i = splitVal (nodeVec pt ! i)
              \<and> c' ! i = lhId (nodeVec pt ! i) - id' (nodeVec pt ! i))
          \<and> (\<not> 0 < lhId (nodeVec pt ! i) \<longrightarrow>
                a' ! i = nodeVal ! i \<and> b' ! i = numVec ! i \<and> c' ! i = 0)
          \<and> (c' ! i = 0 \<longleftrightarrow> lhId (nodeVec pt ! i) = -1)"
      using c n by (auto simp: Consume_def split: if_splits)
  qed
  with r(1) show ?thesis by blast
qed

lemma ex_pt_grown: "grown ex_pt_split"
proof -
  have c: "PreTree_ctor 4 1 3 ex_rawPT 0 = Inr ex_pt"
    by (simp add: PreTree_ctor_def BitFactory_def INT_MAX_def ex_pt_def ex_rawPT_def Let_def
        upt_rec)
  have t: "TerminalOffspring ex_pt 0 = Inr (ex_pt\<lparr>nodeVec :=
              [\<lparr>id' = 0, lhId = 1, predIdx = 33, splitVal = 11, info = 22\<rparr>,
               \<lparr>id' = 1, lhId = -1, predIdx = 33, splitVal = 11, info = 22\<rparr>,
               \<lparr>id' = 2, lhId = -1, predIdx = 33, splitVal = 11, info = 22\<rparr>,
               ex_rawPT 3], treeHeight := 3, leafCount := 3\<rparr>, 1, 2)"
    by (simp add: TerminalOffspring_def ex_pt_def ex_rawPT_def Let_def)
  have n: "NonTerminal (ex_pt\<lparr>nodeVec :=
              [\<lparr>id' = 0, lhId = 1, predIdx = 33, splitVal = 11, info = 22\<rparr>,
               \<lparr>id' = 1, lhId = -1, predIdx = 33, splitVal = 11, info = 22\<rparr>,
               \<lparr>id' = 2, lhId = -1, predIdx = 33, splitVal = 11, info = 22\<rparr>,
               ex_rawPT 3], treeHeight := 3, leafCount := 3\<rparr>) 0 9 (3 / 2) 5 = Inr ex_pt_split"
    by (simp add: NonTerminal_def ex_pt_def ex_pt_split_def)
  have g0: "grown ex_pt" by (rule grown_ctor[OF c])
  have g1: "grown (ex_pt\<lparr>nodeVec :=
              [\<lparr>id' = 0, lhId = 1, predIdx = 33, splitVal = 11, info = 22\<rparr>,
               \<lparr>id' = 1, lhId = -1, predIdx = 33, splitVal = 11, info = 22\<rparr>,
               \<lparr>id' = 2, lhId = -1, predIdx = 33, splitVal = 11, info = 22\<rparr>,
               ex_rawPT 3], treeHeight := 3, leafCount := 3\<rparr>)"
    by (rule grown_TerminalOffspring[OF g0 _ t]) (simp add: ex_pt_def)
  show ?thesis
    by (rule grown_NonTerminal[OF g1 _ n]) (simp add: ex_pt_def)
qed

theorem ConsumeNodes_bump_zero_iff_terminal_witness:
  "grown ex_pt_split \<and> treeHeight ex_pt_split \<le> length [7, 8, 9 :: int]
   \<and> treeHeight ex_pt_split \<le> length [1 / 2, 5 / 2, 7 / 2 :: real]
   \<and> treeHeight ex_pt_split \<le> length [4, 4, 4 :: int]
   \<and> ConsumeNodes ex_pt_split [7, 8, 9] [1 / 2, 5 / 2, 7 / 2] [4, 4, 4]
       = Inr ([5, 8, 9], [3 / 2, 5 / 2, 7 / 2], [1, 0, 0])
   \<and> (\<exists>nodeVal' numVec' bumpVec'.
      ConsumeNodes ex_pt_split [7, 8, 9] [1 / 2, 5 / 2, 7 / 2] [4, 4, 4]
         = Inr (nodeVal', numVec', bumpVec')
      \<and> (\<forall>i<treeHeight ex_pt_split.
            (0 < lhId (nodeVec ex_pt_split ! i) \<longrightarrow>
                nodeVal' ! i = PTNode.predIdx (nodeVec ex_pt_split ! i)
              \<and> numVec' ! i = splitVal (nodeVec ex_pt_split ! i)
              \<and> bumpVec' ! i = lhId (nodeVec ex_pt_split ! i) - id' (nodeVec ex_pt_split ! i))
          \<and> (\<not> 0 < lhId (nodeVec ex_pt_split ! i) \<longrightarrow>
                nodeVal' ! i = [7, 8, 9] ! i \<and> numVec' ! i = [1 / 2, 5 / 2, 7 / 2] ! i
              \<and> bumpVec' ! i = 0)
          \<and> (bumpVec' ! i = 0 \<longleftrightarrow> lhId (nodeVec ex_pt_split ! i) = -1)))"
proof -
  have h: "treeHeight ex_pt_split \<le> length [7, 8, 9 :: int]"
    "treeHeight ex_pt_split \<le> length [1 / 2, 5 / 2, 7 / 2 :: real]"
    "treeHeight ex_pt_split \<le> length [4, 4, 4 :: int]"
    by (simp_all add: ex_pt_split_def)
  have ev: "ConsumeNodes ex_pt_split [7, 8, 9] [1 / 2, 5 / 2, 7 / 2] [4, 4, 4]
       = Inr ([5, 8, 9], [3 / 2, 5 / 2, 7 / 2], [1, 0, 0])"
    by (simp add: ConsumeNodes_def ex_pt_split_def numeral_3_eq_3 Consume_def)
  from ConsumeNodes_bump_zero_iff_terminal[OF ex_pt_grown h] ex_pt_grown h ev
  show ?thesis by blast
qed


subsection \<open>DecTree::Vote\<close>




lemma cell_in_range:
  assumes "r < n" "c < (w::nat)"
  shows "r * w + c < n * w"
proof -
  have "r * w + c < r * w + w" using assms(2) by simp
  also have "\<dots> = Suc r * w" by simp
  also have "\<dots> \<le> n * w" using assms(1) by (intro mult_le_mono1) simp
  finally show ?thesis .
qed





















subsection \<open>DecTree::SetBagRow and DecTree::InBag\<close>

lemma and_mask_nonzero:
  fixes w :: "32 word"
  assumes "j < 32"
  shows "(w AND 2 ^ j \<noteq> 0) = bit w j"
proof -
  have "w AND 2 ^ j = 0 \<longleftrightarrow> \<not> bit w j"
    using assms by (simp add: and_exp_eq_0_iff_not_bit)
  then show ?thesis by blast
qed

lemma bit_or_mask:
  fixes w :: "32 word"
  assumes "j < 32" "m < 32"
  shows "bit (w OR 2 ^ j) m = (bit w m \<or> m = j)"
  using assms by (auto simp: bit_or_iff bit_exp_iff)

lemma packed_bit_set:
  assumes "idx div 32 < length ws" "idx' div 32 < length ws"
  shows "packed_bit (ws[idx div 32 := ws ! (idx div 32) OR push_bit (idx mod 32) 1]) idx'
     = (packed_bit ws idx' \<or> idx' = idx)"
proof (cases "idx' div 32 = idx div 32")
  case True
  have "idx' = idx \<longleftrightarrow> idx' mod 32 = idx mod 32"
    using True by (metis div_mult_mod_eq)
  then show ?thesis
    using True assms by (simp add: packed_bit_def bit_or_mask)
next
  case False
  then have "idx' \<noteq> idx" by auto
  then show ?thesis using False assms by (simp add: packed_bit_def)
qed

lemma InBag_packed:
  assumes "row * nTree' + treeNum < 2 ^ 32" "(row * nTree' + treeNum) div 32 < length inBag"
  shows "InBag nTree' inBag treeNum row = Inr (packed_bit inBag (row * nTree' + treeNum))"
proof -
  have m: "(row * nTree' + treeNum) mod 2 ^ 32 = row * nTree' + treeNum"
    using assms(1) by simp
  have nz: "((w::32 word) AND 2 ^ j > 0) = bit w j" if "j < 32" for w j
    using and_mask_nonzero[OF that, of w] by (simp add: word_greater_zero_iff)
  show ?thesis
    unfolding InBag_def BagCoord_def m Let_def using assms(2)
    by (simp add: nz packed_bit_def)
qed

lemma SetBagRow_inner_effect:
  assumes "n \<le> 32"
    and "\<forall>j<n. (baseRow + j) * nTree' + treeNum < 2 ^ 32
            \<and> ((baseRow + j) * nTree' + treeNum) div 32 < length inBag"
  shows "\<exists>b'. SetBagRow_inner n nTree' ptSlot treeNum baseRow inBag = Inr b'
      \<and> length b' = length inBag
      \<and> (\<forall>idx. idx div 32 < length inBag \<longrightarrow>
            packed_bit b' idx = (packed_bit inBag idx
               \<or> (\<exists>j<n. bit ptSlot j \<and> idx = (baseRow + j) * nTree' + treeNum)))"
  using assms
proof (induction n)
  case 0
  then show ?case by simp
next
  case (Suc n)
  then obtain b1 where b1: "SetBagRow_inner n nTree' ptSlot treeNum baseRow inBag = Inr b1"
    "length b1 = length inBag"
    "\<forall>idx. idx div 32 < length inBag \<longrightarrow>
            packed_bit b1 idx = (packed_bit inBag idx
               \<or> (\<exists>j<n. bit ptSlot j \<and> idx = (baseRow + j) * nTree' + treeNum))"
    by force
  let ?i = "(baseRow + n) * nTree' + treeNum"
  have n32: "n < 32" using Suc.prems(1) by simp
  have i: "?i < 2 ^ 32" "?i div 32 < length inBag" using Suc.prems(2) by auto
  have m: "?i mod 2 ^ 32 = ?i" using i(1) by simp
  show ?case
  proof (cases "bit ptSlot n")
    case False
    then have "SetBagRow_inner (Suc n) nTree' ptSlot treeNum baseRow inBag = Inr b1"
      using b1(1) and_mask_nonzero[OF n32, of ptSlot] by (simp add: Let_def)
    moreover have "\<forall>idx. idx div 32 < length inBag \<longrightarrow>
            packed_bit b1 idx = (packed_bit inBag idx
               \<or> (\<exists>j<Suc n. bit ptSlot j \<and> idx = (baseRow + j) * nTree' + treeNum))"
      using b1(3) False by (auto simp: less_Suc_eq)
    ultimately show ?thesis using b1(2) by blast
  next
    case True
    let ?b2 = "b1[?i div 32 := b1 ! (?i div 32) OR push_bit (?i mod 32) 1]"
    have bc: "BagCoord nTree' b1 treeNum (baseRow + n) = Inr (b1 ! (?i div 32), ?i div 32, ?i mod 32)"
      unfolding BagCoord_def m Let_def using i(2) b1(2) by simp
    have st: "SetBagRow_inner (Suc n) nTree' ptSlot treeNum baseRow inBag = Inr ?b2"
      using b1(1) True and_mask_nonzero[OF n32, of ptSlot] bc by (simp add: Let_def)
    have "\<forall>idx. idx div 32 < length inBag \<longrightarrow>
            packed_bit ?b2 idx = (packed_bit inBag idx
               \<or> (\<exists>j<Suc n. bit ptSlot j \<and> idx = (baseRow + j) * nTree' + treeNum))"
    proof (intro allI impI)
      fix idx assume r: "idx div 32 < length inBag"
      have "packed_bit ?b2 idx = (packed_bit b1 idx \<or> idx = ?i)"
        using i(2) r b1(2) by (intro packed_bit_set) simp_all
      also have "\<dots> = (packed_bit inBag idx
               \<or> (\<exists>j<n. bit ptSlot j \<and> idx = (baseRow + j) * nTree' + treeNum) \<or> idx = ?i)"
        using b1(3) r by blast
      also have "\<dots> = (packed_bit inBag idx
               \<or> (\<exists>j<Suc n. bit ptSlot j \<and> idx = (baseRow + j) * nTree' + treeNum))"
        using True by (auto simp: less_Suc_eq)
      finally show "packed_bit ?b2 idx = (packed_bit inBag idx
               \<or> (\<exists>j<Suc n. bit ptSlot j \<and> idx = (baseRow + j) * nTree' + treeNum))" .
    qed
    then show ?thesis using st b1(2) by (intro exI[of _ ?b2]) simp
  qed
qed

lemma SetBagRow_outer_effect:
  assumes "nRow' + 32 \<le> 2 ^ 32" "nRow' \<le> 32 * length ptInBag" "treeNum < nTree'"
    "nTree' * nRow' < 2 ^ 32" "nTree' * nRow' \<le> 32 * length inBag"
    and "baseRow = 32 * slot"
  shows "\<exists>b'. SetBagRow_outer nTree' nRow' ptInBag treeNum baseRow slot inBag = Some (Inr b')
      \<and> length b' = length inBag
      \<and> (\<forall>idx. idx div 32 < length inBag \<longrightarrow>
            packed_bit b' idx = (packed_bit inBag idx
               \<or> (\<exists>r. baseRow \<le> r \<and> r < nRow' \<and> packed_bit ptInBag r
                     \<and> idx = r * nTree' + treeNum)))"
  using assms(5,6)
proof (induction "nRow' - baseRow" arbitrary: baseRow slot inBag rule: less_induct)
  case less
  show ?case
  proof (cases "baseRow < nRow'")
    case False
    then have "SetBagRow_outer nTree' nRow' ptInBag treeNum baseRow slot inBag = Some (Inr inBag)"
      by (subst SetBagRow_outer.simps) simp
    then show ?thesis using False by auto
  next
    case True
    have slot: "slot < length ptInBag" using True less.prems(2) assms(2) by simp
    have nowrap: "(baseRow + 32) mod 2 ^ 32 = baseRow + 32"
      "(baseRow + 32) mod 4294967296 = baseRow + 32"
      using True assms(1) by simp_all
    define supRow where "supRow = (if nRow' < baseRow + 32 then nRow' else baseRow + 32)"
    define n where "n = supRow - baseRow"
    have n: "n \<le> 32" "baseRow + n = supRow" "supRow \<le> nRow'" "supRow \<le> baseRow + 32"
      using True by (auto simp: n_def supRow_def)
    have cells: "\<forall>j<n. (baseRow + j) * nTree' + treeNum < 2 ^ 32
            \<and> ((baseRow + j) * nTree' + treeNum) div 32 < length inBag"
    proof (intro allI impI)
      fix j assume "j < n"
      then have "baseRow + j < nRow'" using n by simp
      then have "(baseRow + j) * nTree' + treeNum < nRow' * nTree'"
        using assms(3) by (rule cell_in_range)
      then have lt: "(baseRow + j) * nTree' + treeNum < nTree' * nRow'"
        by (simp add: mult.commute)
      then have "(baseRow + j) * nTree' + treeNum < 32 * length inBag"
        using less.prems(1) by simp
      then have "((baseRow + j) * nTree' + treeNum) div 32 < length inBag"
        by (simp add: less_mult_imp_div_less mult.commute)
      then show "(baseRow + j) * nTree' + treeNum < 2 ^ 32
            \<and> ((baseRow + j) * nTree' + treeNum) div 32 < length inBag"
        using lt assms(4) by simp
    qed
    from SetBagRow_inner_effect[OF n(1) cells, of "ptInBag ! slot"]
    obtain b1 where b1:
      "SetBagRow_inner n nTree' (ptInBag ! slot) treeNum baseRow inBag = Inr b1"
      "length b1 = length inBag"
      "\<forall>idx. idx div 32 < length inBag \<longrightarrow>
            packed_bit b1 idx = (packed_bit inBag idx
               \<or> (\<exists>j<n. bit (ptInBag ! slot) j \<and> idx = (baseRow + j) * nTree' + treeNum))"
      by blast
    have step: "SetBagRow_outer nTree' nRow' ptInBag treeNum baseRow slot inBag
        = SetBagRow_outer nTree' nRow' ptInBag treeNum (baseRow + 32) (slot + 1) b1"
    proof -
      have b1': "SetBagRow_inner ((if nRow' < baseRow + 32 then nRow' else baseRow + 32) - baseRow)
          nTree' (ptInBag ! slot) treeNum baseRow inBag = Inr b1"
        using b1(1) by (simp only: n_def supRow_def)
      show ?thesis
        by (subst SetBagRow_outer.simps)
           (simp only: True slot if_True Let_def nowrap(1) b1' sum.case)
    qed
    have "nRow' - (baseRow + 32) < nRow' - baseRow" using True by simp
    from less.hyps[OF this, of b1 "slot + 1"] less.prems b1(2)
    obtain b2 where b2:
      "SetBagRow_outer nTree' nRow' ptInBag treeNum (baseRow + 32) (slot + 1) b1 = Some (Inr b2)"
      "length b2 = length inBag"
      "\<forall>idx. idx div 32 < length inBag \<longrightarrow>
            packed_bit b2 idx = (packed_bit b1 idx
               \<or> (\<exists>r. baseRow + 32 \<le> r \<and> r < nRow' \<and> packed_bit ptInBag r
                     \<and> idx = r * nTree' + treeNum))"
      by auto
    have pt: "packed_bit ptInBag (baseRow + j) = bit (ptInBag ! slot) j" if "j < 32" for j
      using that by (simp add: packed_bit_def less.prems(2))
    have rows: "(\<exists>j<n. bit (ptInBag ! slot) j \<and> idx = (baseRow + j) * nTree' + treeNum)
        = (\<exists>r. baseRow \<le> r \<and> r < supRow \<and> packed_bit ptInBag r \<and> idx = r * nTree' + treeNum)"
      for idx
    proof
      assume "\<exists>j<n. bit (ptInBag ! slot) j \<and> idx = (baseRow + j) * nTree' + treeNum"
      then obtain j where j: "j < n" "bit (ptInBag ! slot) j"
        "idx = (baseRow + j) * nTree' + treeNum" by blast
      have "packed_bit ptInBag (baseRow + j)" using j(1,2) n(1) pt by simp
      then show "\<exists>r. baseRow \<le> r \<and> r < supRow \<and> packed_bit ptInBag r
          \<and> idx = r * nTree' + treeNum"
        using j n(2) by (intro exI[of _ "baseRow + j"]) simp
    next
      assume "\<exists>r. baseRow \<le> r \<and> r < supRow \<and> packed_bit ptInBag r
          \<and> idx = r * nTree' + treeNum"
      then obtain r where r: "baseRow \<le> r" "r < supRow" "packed_bit ptInBag r"
        "idx = r * nTree' + treeNum" by blast
      define j where "j = r - baseRow"
      have j: "j < n" "r = baseRow + j" using r(1,2) n(2) by (auto simp: j_def)
      then have "bit (ptInBag ! slot) j" using r(3) pt n(1) by simp
      then show "\<exists>j<n. bit (ptInBag ! slot) j \<and> idx = (baseRow + j) * nTree' + treeNum"
        using j r(4) by blast
    qed
    have "\<forall>idx. idx div 32 < length inBag \<longrightarrow>
            packed_bit b2 idx = (packed_bit inBag idx
               \<or> (\<exists>r. baseRow \<le> r \<and> r < nRow' \<and> packed_bit ptInBag r
                     \<and> idx = r * nTree' + treeNum))"
    proof (intro allI impI)
      fix idx assume rg: "idx div 32 < length inBag"
      let ?P = "\<lambda>r. packed_bit ptInBag r \<and> idx = r * nTree' + treeNum"
      have "packed_bit b2 idx = (packed_bit inBag idx
          \<or> (\<exists>r. baseRow \<le> r \<and> r < supRow \<and> ?P r)
          \<or> (\<exists>r. baseRow + 32 \<le> r \<and> r < nRow' \<and> ?P r))"
        using b2(3) b1(3) rg rows by simp
      also have "((\<exists>r. baseRow \<le> r \<and> r < supRow \<and> ?P r)
          \<or> (\<exists>r. baseRow + 32 \<le> r \<and> r < nRow' \<and> ?P r))
          = (\<exists>r. baseRow \<le> r \<and> r < nRow' \<and> ?P r)"
      proof -
        have "(baseRow \<le> r \<and> r < supRow) \<or> (baseRow + 32 \<le> r \<and> r < nRow')
            \<longleftrightarrow> (baseRow \<le> r \<and> r < nRow')" for r
          by (auto simp: supRow_def split: if_splits)
        then have eq: "\<And>r. (baseRow \<le> r \<and> r < supRow) \<or> (baseRow + 32 \<le> r \<and> r < nRow')
            \<longleftrightarrow> (baseRow \<le> r \<and> r < nRow')" .
        show ?thesis (is "(?A \<or> ?B) = ?C")
        proof
          assume "?A \<or> ?B"
          then show ?C using eq by blast
        next
          assume ?C
          then obtain r where r: "baseRow \<le> r" "r < nRow'" "?P r" by blast
          with eq[of r] show "?A \<or> ?B" by blast
        qed
      qed
      finally show "packed_bit b2 idx = (packed_bit inBag idx
               \<or> (\<exists>r. baseRow \<le> r \<and> r < nRow' \<and> packed_bit ptInBag r
                     \<and> idx = r * nTree' + treeNum))"
        by blast
    qed
    then show ?thesis using step b2(1,2) by auto
  qed
qed

lemma coord_inj:
  assumes "t < n" "t' < (n::nat)" "r * n + t = r' * n + t'"
  shows "r = r' \<and> t = t'"
proof -
  have "(r * n + t) div n = r" "(r' * n + t') div n = r'"
    using assms(1,2) by simp_all
  then have "r = r'" using assms(3) by simp
  then show ?thesis using assms(3) by simp
qed

lemma div32_bound:
  assumes "idx < m"
  shows "idx div 32 < (m + 31) div (32::nat)"
proof -
  have "idx + 32 \<le> m + 31" using assms by simp
  then have "(idx + 32) div 32 \<le> (m + 31) div 32" by (rule div_le_mono)
  then show ?thesis by simp
qed

lemma round32: "m \<le> 32 * ((m + 31) div (32::nat))"
proof -
  have "(m + 31) mod 32 < 32" by simp
  moreover have "32 * ((m + 31) div 32) + (m + 31) mod 32 = m + 31"
    by (rule mult_div_mod_eq)
  ultimately show ?thesis by linarith
qed

lemma FactoryTrain_clear:
  assumes "t < nTree'" "r < nRow'" "nTree' * nRow' < 2 ^ 32"
  shows "InBag nTree' (FactoryTrain_inBag nTree' nRow') t r = Inr False"
proof -
  have "r * nTree' + t < nRow' * nTree'" using assms(2,1) by (rule cell_in_range)
  then have lt: "r * nTree' + t < nTree' * nRow'" by (simp add: mult.commute)
  have len: "length (FactoryTrain_inBag nTree' nRow') = (nTree' * nRow' + 31) div 32"
    using assms(3) by (simp add: FactoryTrain_inBag_def)
  have rg: "(r * nTree' + t) div 32 < length (FactoryTrain_inBag nTree' nRow')"
    unfolding len using lt by (rule div32_bound)
  have "InBag nTree' (FactoryTrain_inBag nTree' nRow') t r
      = Inr (packed_bit (FactoryTrain_inBag nTree' nRow') (r * nTree' + t))"
    using lt assms(3) rg by (intro InBag_packed) simp_all
  moreover have "\<not> packed_bit (FactoryTrain_inBag nTree' nRow') (r * nTree' + t)"
    using rg by (simp add: packed_bit_def FactoryTrain_inBag_def)
  ultimately show ?thesis by simp
qed



text \<open>
  Claim C7, as the code has it: on a bitmap of the size \<open>FactoryTrain\<close> allocates,
  with \<open>nTree * nRow\<close> and \<open>nRow + 32\<close> within the 32-bit range, \<open>SetBagRow(ptInBag, treeNum)\<close> terminates
  without fault, and afterwards, for every row \<open>r < nRow\<close>, \<open>InBag(treeNum, r)\<close> is
  what it was before or bit \<open>r\<close> of \<open>ptInBag\<close>; so where the tree's bit was clear
  before, as \<open>FactoryTrain\<close> leaves every bit, \<open>InBag(treeNum, r)\<close> holds if and only
  if bit \<open>r\<close> is set in \<open>ptInBag\<close>. The bits of every other tree are unchanged, so
  later calls for other trees keep the equivalence.
\<close>

theorem SetBagRow_InBag_roundtrip:
  assumes "treeNum < nTree'" "nTree' * nRow' < 2 ^ 32" "nRow' + 32 \<le> 2 ^ 32"
    "length inBag = (nTree' * nRow' + 31) div 32" "length ptInBag = (nRow' + 31) div 32"
  shows "\<exists>inBag'. SetBagRow nTree' nRow' ptInBag treeNum inBag = Some (Inr inBag')
      \<and> length inBag' = length inBag
      \<and> (\<forall>r<nRow'. \<exists>was. InBag nTree' inBag treeNum r = Inr was
             \<and> InBag nTree' inBag' treeNum r = Inr (was \<or> packed_bit ptInBag r))
      \<and> (\<forall>r<nRow'. InBag nTree' inBag treeNum r = Inr False
             \<longrightarrow> InBag nTree' inBag' treeNum r = Inr (packed_bit ptInBag r))
      \<and> (\<forall>t<nTree'. t \<noteq> treeNum
             \<longrightarrow> (\<forall>r<nRow'. InBag nTree' inBag' t r = InBag nTree' inBag t r))
      \<and> (\<forall>t<nTree'. \<forall>r<nRow'.
             InBag nTree' (FactoryTrain_inBag nTree' nRow') t r = Inr False)"
proof -
  have l1: "nRow' \<le> 32 * length ptInBag" unfolding assms(5) by (rule round32)
  have l2: "nTree' * nRow' \<le> 32 * length inBag" unfolding assms(4) by (rule round32)
  from SetBagRow_outer_effect[OF assms(3) l1 assms(1,2) l2, of 0 0]
  obtain b where b: "SetBagRow nTree' nRow' ptInBag treeNum inBag = Some (Inr b)"
    "length b = length inBag"
    "\<forall>idx. idx div 32 < length inBag \<longrightarrow>
            packed_bit b idx = (packed_bit inBag idx
               \<or> (\<exists>r. 0 \<le> r \<and> r < nRow' \<and> packed_bit ptInBag r
                     \<and> idx = r * nTree' + treeNum))"
    unfolding SetBagRow_def by auto
  have cell: "r * nTree' + t < 2 ^ 32 \<and> (r * nTree' + t) div 32 < length inBag"
    if "t < nTree'" "r < nRow'" for t r
  proof -
    have "r * nTree' + t < nRow' * nTree'" using that(2,1) by (rule cell_in_range)
    then have lt: "r * nTree' + t < nTree' * nRow'" by (simp add: mult.commute)
    then have "(r * nTree' + t) div 32 < length inBag"
      unfolding assms(4) by (rule div32_bound)
    then show ?thesis using lt assms(2) by simp
  qed
  have before: "InBag nTree' inBag t r = Inr (packed_bit inBag (r * nTree' + t))"
    if "t < nTree'" "r < nRow'" for t r
    using cell[OF that] by (intro InBag_packed) simp_all
  have after: "InBag nTree' b t r = Inr (packed_bit b (r * nTree' + t))"
    if "t < nTree'" "r < nRow'" for t r
    using cell[OF that] b(2) by (intro InBag_packed) simp_all
  have own: "packed_bit b (r * nTree' + treeNum)
      = (packed_bit inBag (r * nTree' + treeNum) \<or> packed_bit ptInBag r)"
    if "r < nRow'" for r
  proof -
    have rg: "(r * nTree' + treeNum) div 32 < length inBag"
      using cell[OF assms(1) that] by simp
    have e: "packed_bit b (r * nTree' + treeNum) = (packed_bit inBag (r * nTree' + treeNum)
        \<or> (\<exists>r'. 0 \<le> r' \<and> r' < nRow' \<and> packed_bit ptInBag r'
              \<and> r * nTree' + treeNum = r' * nTree' + treeNum))"
      by (rule b(3)[rule_format, OF rg])
    have "(\<exists>r'. 0 \<le> r' \<and> r' < nRow' \<and> packed_bit ptInBag r'
              \<and> r * nTree' + treeNum = r' * nTree' + treeNum) = packed_bit ptInBag r"
    proof
      assume "\<exists>r'. 0 \<le> r' \<and> r' < nRow' \<and> packed_bit ptInBag r'
              \<and> r * nTree' + treeNum = r' * nTree' + treeNum"
      then obtain r' where r': "packed_bit ptInBag r'"
        "r * nTree' + treeNum = r' * nTree' + treeNum" by blast
      from coord_inj[OF assms(1) assms(1) r'(2)] have "r = r'" by simp
      then show "packed_bit ptInBag r" using r'(1) by simp
    next
      assume "packed_bit ptInBag r"
      then show "\<exists>r'. 0 \<le> r' \<and> r' < nRow' \<and> packed_bit ptInBag r'
              \<and> r * nTree' + treeNum = r' * nTree' + treeNum"
        using that by (intro exI[of _ r]) simp
    qed
    then show ?thesis unfolding e by blast
  qed
  have other: "packed_bit b (r * nTree' + t) = packed_bit inBag (r * nTree' + t)"
    if "t < nTree'" "t \<noteq> treeNum" "r < nRow'" for t r
  proof -
    have rg: "(r * nTree' + t) div 32 < length inBag"
      using cell[OF that(1,3)] by simp
    have e: "packed_bit b (r * nTree' + t) = (packed_bit inBag (r * nTree' + t)
        \<or> (\<exists>r'. 0 \<le> r' \<and> r' < nRow' \<and> packed_bit ptInBag r'
              \<and> r * nTree' + t = r' * nTree' + treeNum))"
      by (rule b(3)[rule_format, OF rg])
    have "\<not> (\<exists>r'. 0 \<le> r' \<and> r' < nRow' \<and> packed_bit ptInBag r'
              \<and> r * nTree' + t = r' * nTree' + treeNum)"
    proof
      assume "\<exists>r'. 0 \<le> r' \<and> r' < nRow' \<and> packed_bit ptInBag r'
              \<and> r * nTree' + t = r' * nTree' + treeNum"
      then obtain r' where "r * nTree' + t = r' * nTree' + treeNum" by blast
      from coord_inj[OF that(1) assms(1) this] that(2) show False by simp
    qed
    then show ?thesis unfolding e by blast
  qed
  show ?thesis
  proof (intro exI[of _ b] conjI allI impI)
    fix r assume r: "r < nRow'"
    show "\<exists>was. InBag nTree' inBag treeNum r = Inr was
             \<and> InBag nTree' b treeNum r = Inr (was \<or> packed_bit ptInBag r)"
      using before[OF assms(1) r] after[OF assms(1) r] own[OF r] by simp
  next
    fix r assume r: "r < nRow'" and z: "InBag nTree' inBag treeNum r = Inr False"
    show "InBag nTree' b treeNum r = Inr (packed_bit ptInBag r)"
      using before[OF assms(1) r] after[OF assms(1) r] own[OF r] z by simp
  next
    fix t r assume "t < nTree'" "t \<noteq> treeNum" "r < nRow'"
    then show "InBag nTree' b t r = InBag nTree' inBag t r"
      using before after other by simp
  next
    fix t r assume "t < nTree'" "r < nRow'"
    then show "InBag nTree' (FactoryTrain_inBag nTree' nRow') t r = Inr False"
      using assms(2) by (rule FactoryTrain_clear)
  qed (use b in auto)
qed

theorem SetBagRow_InBag_roundtrip_witness:
  "(1::nat) < 2 \<and> (2::nat) * 3 < 2 ^ 32 \<and> (3::nat) + 32 \<le> 2 ^ 32
   \<and> length (FactoryTrain_inBag 2 3) = (2 * 3 + 31) div 32
   \<and> length [5 :: 32 word] = (3 + 31) div 32
   \<and> (\<exists>inBag'. SetBagRow 2 3 [5] 1 (FactoryTrain_inBag 2 3) = Some (Inr inBag')
        \<and> InBag 2 inBag' 1 0 = Inr True \<and> InBag 2 inBag' 1 1 = Inr False
        \<and> InBag 2 inBag' 1 2 = Inr True \<and> InBag 2 inBag' 0 0 = Inr False)"
proof -
  have h: "(1::nat) < 2" "(2::nat) * 3 < 2 ^ 32" "(3::nat) + 32 \<le> 2 ^ 32"
    "length (FactoryTrain_inBag 2 3) = (2 * 3 + 31) div 32"
    "length [5 :: 32 word] = (3 + 31) div 32"
    by (simp_all add: FactoryTrain_inBag_def)
  have p: "packed_bit [5] 0" "\<not> packed_bit [5] 1" "packed_bit [5] 2"
    by (simp_all add: packed_bit_def bit_iff_odd_drop_bit)
  from SetBagRow_InBag_roundtrip[OF h]
  obtain b where b: "SetBagRow 2 3 [5] 1 (FactoryTrain_inBag 2 3) = Some (Inr b)"
    "\<forall>r<3. InBag 2 (FactoryTrain_inBag 2 3) 1 r = Inr False
             \<longrightarrow> InBag 2 b 1 r = Inr (packed_bit [5] r)"
    "\<forall>t<2. t \<noteq> 1 \<longrightarrow> (\<forall>r<3. InBag 2 b t r = InBag 2 (FactoryTrain_inBag 2 3) t r)"
    "\<forall>t<2. \<forall>r<3. InBag 2 (FactoryTrain_inBag 2 3) t r = Inr False"
    by blast
  have "InBag 2 b 1 0 = Inr True" "InBag 2 b 1 1 = Inr False" "InBag 2 b 1 2 = Inr True"
    using b(2,4) p by simp_all
  moreover have "InBag 2 b 0 0 = Inr False"
    using b(3,4) by simp
  ultimately show ?thesis using h b(1) by blast
qed

lemma SetBagRow_inner_fault:
  assumes "SetBagRow_inner j nTree' ptSlot treeNum baseRow inBag = Inl e" "j \<le> n"
  shows "SetBagRow_inner n nTree' ptSlot treeNum baseRow inBag = Inl e"
  using assms(2)
proof (induction n)
  case 0
  then show ?case using assms(1) by simp
next
  case (Suc n)
  show ?case
  proof (cases "j = Suc n")
    case True
    then show ?thesis using assms(1) by simp
  next
    case False
    then have "j \<le> n" using Suc.prems by simp
    then show ?thesis using Suc.IH by simp
  qed
qed

text \<open>
  The claim as stated fails for a forest whose bit count \<open>nTree * nRow\<close> does not fit
  32 bits. With 65536 trees over 65536 rows the product wraps to 0 in
  \<^verbatim>\<open>unsigned int\<close>: \<open>FactoryTrain\<close> allocates no word at all, the first bit that
  \<open>SetBagRow\<close> sets for row 0 of tree 0 lies outside the bitmap, and so does the word
  that \<open>InBag(0, 0)\<close> reads.
\<close>

theorem SetBagRow_wide_counterexample:
  "FactoryTrain_inBag 65536 65536 = []
   \<and> SetBagRow 65536 65536 (1 # replicate 2047 0) 0 (FactoryTrain_inBag 65536 65536)
       = Some (Inl OutOfBounds)
   \<and> InBag 65536 (FactoryTrain_inBag 65536 65536) 0 0 = Inl OutOfBounds"
proof -
  have fb: "FactoryTrain_inBag 65536 65536 = []"
    by (simp add: FactoryTrain_inBag_def)
  have first: "SetBagRow_inner (Suc 0) 65536 1 0 0 [] = Inl OutOfBounds"
    by (simp add: BagCoord_def)
  have inner: "SetBagRow_inner 32 65536 1 0 0 [] = Inl OutOfBounds"
    by (rule SetBagRow_inner_fault[OF first]) simp
  have "SetBagRow_outer 65536 65536 (1 # replicate 2047 0) 0 0 0 [] = Some (Inl OutOfBounds)"
    by (subst SetBagRow_outer.simps) (simp add: inner)
  then have sb: "SetBagRow 65536 65536 (1 # replicate 2047 0) 0 [] = Some (Inl OutOfBounds)"
    by (simp add: SetBagRow_def)
  have ib: "InBag 65536 [] 0 0 = Inl OutOfBounds"
    by (simp add: InBag_def BagCoord_def)
  show ?thesis unfolding fb using sb ib by simp
qed

subsection \<open>DecTree::PredictAcrossNumReg: the mean over the trees\<close>

lemma ex_inbag: "InBag (Suc 0) [1] 0 0 = Inr True"
  by (simp add: InBag_def BagCoord_def)

lemma ex_row: "PredictRowNumReg (Suc 0) (Suc 0) (Suc 0) [1 / 2] ex_forest [1] 0 [0] [7] True
    = Some (Inr [-1])"
  by (simp add: PredictRowNumReg_def ex_inbag wr_leaf_def)

lemma ex_score: "score_loop (Suc 0) ex_forest [-1] = Inr (0, 0)"
  by (simp add: rd_def)

text \<open>
  Claim C2 says that the mean over the trees is guarded against a division by zero.
  The code has no such guard: with one tree, one row, \<open>useBag\<close> set and the row in-bag
  for the tree, the walker emits the sentinel leaf \<open>-1\<close>, no tree is seen, and the
  prediction of the row is the quotient \<open>0.0 / 0\<close>, not a number.
\<close>

theorem PredictAcrossNumReg_no_tree_seen_NaN:
  "PredictAcrossNumReg 1 1 1 [1 / 2] ex_forest [1] [Finite 0] [7] True
     = Some (Inr ([NaN], [-1]))"
  by (simp add: PredictAcrossNumReg_def PredictAcrossNumReg_row_def ex_row rd_def dbl_div_def)

subsection \<open>DecTree::PredictRowNumReg: the walker\<close>

lemma rd_in_range:
  assumes "0 \<le> i" "nat i < length xs"
  shows "rd xs i = Inr (xs ! nat i)"
  using assms by (simp add: rd_def)

lemma spec_walk_unique:
  assumes "spec_walk f x tOrig idx leaf" "spec_walk f x tOrig idx leaf'"
  shows "leaf' = leaf"
  using assms
proof (induction arbitrary: leaf' rule: spec_walk.induct)
  case (spec_leaf f tOrig idx x)
  from spec_leaf.prems spec_leaf.hyps show ?case
    by (cases rule: spec_walk.cases) auto
next
  case (spec_left f tOrig idx bump pred x v sv leaf)
  from spec_left.prems show ?case
  proof (cases rule: spec_walk.cases)
    case spec_leaf
    then show ?thesis using spec_left.hyps by simp
  next
    case (spec_left bump' pred' v' sv')
    then have "bump' = bump" using spec_left.hyps by simp
    then show ?thesis using spec_left.IH spec_left(7) by simp
  next
    case (spec_right bump' pred' v' sv')
    then have "pred' = pred" "sv' = sv" using spec_left.hyps by simp_all
    then have "v' = v" using spec_right spec_left.hyps by simp
    then show ?thesis using spec_right spec_left.hyps \<open>sv' = sv\<close> by simp
  qed
next
  case (spec_right f tOrig idx bump pred x v sv leaf)
  from spec_right.prems show ?case
  proof (cases rule: spec_walk.cases)
    case spec_leaf
    then show ?thesis using spec_right.hyps by simp
  next
    case (spec_left bump' pred' v' sv')
    then have "pred' = pred" "sv' = sv" using spec_right.hyps by simp_all
    then have "v' = v" using spec_left spec_right.hyps by simp
    then show ?thesis using spec_left spec_right.hyps \<open>sv' = sv\<close> by simp
  next
    case (spec_right bump' pred' v' sv')
    then have "bump' = bump" using spec_right.hyps by simp
    then show ?thesis using spec_right.IH spec_right(7) by simp
  qed
qed

lemma walk_NumReg_total:
  assumes wf: "forest_wf f nTree' nPred'" and x: "length x = nPred'"
    and "0 \<le> tOrig + idx" "nat (tOrig + idx) < length (bumpForest f)"
  shows "\<exists>leaf. walk_NumReg f x tOrig idx = Some (Inr leaf) \<and> spec_walk f x tOrig idx leaf"
  using assms(3,4)
proof (induction "length (bumpForest f) - nat (tOrig + idx)" arbitrary: idx rule: less_induct)
  case less
  let ?i = "nat (tOrig + idx)"
  let ?bump = "bumpForest f ! ?i"
  have rb: "rd (bumpForest f) (tOrig + idx) = Inr ?bump"
    using less.prems by (rule rd_in_range)
  show ?case
  proof (cases "?bump = 0")
    case True
    have "walk_NumReg f x tOrig idx = Some (Inr idx)"
      by (subst walk_NumReg.simps) (simp add: rb True)
    moreover have "spec_walk f x tOrig idx idx"
      using rb True by (intro spec_leaf) simp
    ultimately show ?thesis by blast
  next
    case False
    let ?pred = "predForest f ! ?i"
    let ?sv = "numForest f ! ?i"
    from wf less.prems(2) False
    have nd: "0 < ?bump" "int ?i + ?bump + 1 < int (length (bumpForest f))"
      "0 \<le> ?pred" "nat ?pred < nPred'"
      and len: "length (predForest f) = length (bumpForest f)"
        "length (numForest f) = length (bumpForest f)"
      unfolding forest_wf_def by auto
    have rp: "rd (predForest f) (tOrig + idx) = Inr ?pred"
      using less.prems len by (intro rd_in_range) simp_all
    have rs: "rd (numForest f) (tOrig + idx) = Inr ?sv"
      using less.prems len by (intro rd_in_range) simp_all
    have rx: "rd x ?pred = Inr (x ! nat ?pred)"
      using nd(3,4) x by (intro rd_in_range) simp_all
    define step where "step = (if x ! nat ?pred \<le> ?sv then ?bump else ?bump + 1)"
    have st: "0 < step" "step \<le> ?bump + 1" using nd(1) by (auto simp: step_def)
    have i: "int ?i = tOrig + idx" using less.prems(1) by simp
    have n0: "0 \<le> tOrig + (idx + step)" using less.prems(1) st(1) by simp
    have n1: "nat (tOrig + (idx + step)) < length (bumpForest f)"
      using nd(2) st i n0 by linarith
    have dec: "length (bumpForest f) - nat (tOrig + (idx + step))
        < length (bumpForest f) - nat (tOrig + idx)"
      using n1 st(1) less.prems by linarith
    from less.hyps[OF dec n0 n1]
    obtain leaf where leaf: "walk_NumReg f x tOrig (idx + step) = Some (Inr leaf)"
      "spec_walk f x tOrig (idx + step) leaf" by blast
    have w: "walk_NumReg f x tOrig idx = Some (Inr leaf)"
      by (subst walk_NumReg.simps) (simp add: rb rp rs rx False leaf(1)[unfolded step_def])
    have "spec_walk f x tOrig idx leaf"
    proof (cases "x ! nat ?pred \<le> ?sv")
      case True
      then have "spec_walk f x tOrig (idx + ?bump) leaf" using leaf(2) by (simp add: step_def)
      from spec_left[OF rb False rp rx rs True this] show ?thesis .
    next
      case F: False
      then have "spec_walk f x tOrig (idx + ?bump + 1) leaf"
        using leaf(2) by (simp add: step_def add.assoc)
      from spec_right[OF rb False rp rx rs F this] show ?thesis .
    qed
    with w show ?thesis by blast
  qed
qed

lemma numBase_in_range:
  assumes "row < nRow'" "i < (n::nat)"
  shows "row + i * nRow' < nRow' * n"
proof -
  have "i * nRow' + row < n * nRow'" using assms(2,1) by (rule cell_in_range)
  then show ?thesis by (simp add: ac_simps)
qed

lemma fill_rowT_effect:
  assumes "row < nRow'" "length numBase = nRow' * nPred'" "nRow' * nPred' < 2 ^ 32"
    "n \<le> nPred'" "nPred' \<le> length rowT"
  shows "\<exists>x. fill_rowT n numBase row nRow' rowT = Inr x \<and> length x = length rowT
      \<and> (\<forall>p<n. x ! p = numBase ! (row + p * nRow'))
      \<and> (\<forall>p\<ge>n. x ! p = rowT ! p)"
  using assms(4)
proof (induction n)
  case 0
  then show ?case by simp
next
  case (Suc n)
  then obtain x where x: "fill_rowT n numBase row nRow' rowT = Inr x" "length x = length rowT"
    "\<forall>p<n. x ! p = numBase ! (row + p * nRow')" "\<forall>p\<ge>n. x ! p = rowT ! p"
    by fastforce
  have n: "n < nPred'" using Suc.prems by simp
  have lt: "row + n * nRow' < nRow' * nPred'" using assms(1) n by (rule numBase_in_range)
  then have k: "row + n * nRow' < 2 ^ 32" "row + n * nRow' < length numBase"
    using assms(2,3) by simp_all
  have nl: "n < length x" using n assms(5) x(2) by simp
  have st: "fill_rowT (Suc n) numBase row nRow' rowT = Inr (x[n := numBase ! (row + n * nRow')])"
    using x(1) k nl by (simp add: Let_def)
  show ?case
  proof (intro exI[of _ "x[n := numBase ! (row + n * nRow')]"] conjI allI impI)
    fix p assume "p < Suc n"
    then show "x[n := numBase ! (row + n * nRow')] ! p = numBase ! (row + p * nRow')"
      using x(3) nl by (cases "p = n") auto
  next
    fix p assume "Suc n \<le> p"
    then show "x[n := numBase ! (row + n * nRow')] ! p = rowT ! p"
      using x(4) by auto
  qed (use st x(2) in auto)
qed

lemma InBag_total:
  assumes "t < nTree'" "row < nRow'" "nTree' * nRow' < 2 ^ 32"
    "length inBag = (nTree' * nRow' + 31) div 32"
  shows "\<exists>b. InBag nTree' inBag t row = Inr b"
proof -
  have "row * nTree' + t < nRow' * nTree'" using assms(2,1) by (rule cell_in_range)
  then have lt: "row * nTree' + t < nTree' * nRow'" by (simp add: mult.commute)
  then have "(row * nTree' + t) div 32 < length inBag"
    unfolding assms(4) by (rule div32_bound)
  moreover have "row * nTree' + t < 2 ^ 32" using lt assms(3) by simp
  ultimately show ?thesis using InBag_packed by blast
qed

lemma PredictRowNumReg_trees_effect:
  assumes wf: "forest_wf f nTree' nPred'" and x: "length x = nPred'"
    and "row < nRow'" "nTree' \<le> length leaves"
    and bag: "useBag \<longrightarrow> nTree' * nRow' < 2 ^ 32
                  \<and> length inBag = (nTree' * nRow' + 31) div 32"
    and "n \<le> nTree'"
  shows "\<exists>lv. PredictRowNumReg_trees n nTree' f inBag row x leaves useBag = Some (Inr lv)
      \<and> length lv = length leaves
      \<and> (\<forall>t<n. if useBag \<and> InBag nTree' inBag t row = Inr True then lv ! t = -1
                else spec_walk f x (treeOriginForest f ! t) 0 (lv ! t))
      \<and> (\<forall>t\<ge>n. lv ! t = leaves ! t)"
  using assms(6)
proof (induction n)
  case 0
  then show ?case by simp
next
  case (Suc n)
  have "n \<le> nTree'" using Suc.prems by simp
  from Suc.IH[OF this] obtain lv where lv:
    "PredictRowNumReg_trees n nTree' f inBag row x leaves useBag = Some (Inr lv)"
    "length lv = length leaves"
    "\<forall>t<n. if useBag \<and> InBag nTree' inBag t row = Inr True then lv ! t = -1
                else spec_walk f x (treeOriginForest f ! t) 0 (lv ! t)"
    "\<forall>t\<ge>n. lv ! t = leaves ! t"
    by blast
  have n: "n < nTree'" using Suc.prems by simp
  have nl: "n < length lv" using n assms(4) lv(2) by simp
  let ?skip = "useBag \<and> InBag nTree' inBag n row = Inr True"
  define skip where "skip \<longleftrightarrow> useBag \<and> InBag nTree' inBag n row = Inr True"
  have sk: "(if useBag then InBag nTree' inBag n row else Inr False) = Inr skip"
  proof (cases useBag)
    case True
    with bag InBag_total[OF n assms(3), of inBag]
    obtain b where b: "InBag nTree' inBag n row = Inr b" by blast
    show ?thesis
    proof (cases b)
      case True
      then show ?thesis using \<open>useBag\<close> b by (simp add: skip_def)
    next
      case False
      then show ?thesis using \<open>useBag\<close> b by (simp add: skip_def)
    qed
  next
    case False
    then show ?thesis by (simp add: skip_def)
  qed
  have step: "PredictRowNumReg_trees (Suc n) nTree' f inBag row x leaves useBag
      = (if skip then wr_leaf lv n (-1)
         else (case rd (treeOriginForest f) (int n) of
                 Inl e \<Rightarrow> Some (Inl e)
               | Inr tOrig \<Rightarrow>
                   (case walk_NumReg f x tOrig 0 of
                      None \<Rightarrow> None
                    | Some (Inl e) \<Rightarrow> Some (Inl e)
                    | Some (Inr idx) \<Rightarrow> wr_leaf lv n idx)))"
    by (simp only: PredictRowNumReg_trees.simps lv(1) option.case sum.case sk)
  have wl: "wr_leaf lv n v = Some (Inr (lv[n := v]))" for v
    using nl by (simp add: wr_leaf_def)
  have fin: "\<exists>v. PredictRowNumReg_trees (Suc n) nTree' f inBag row x leaves useBag
        = Some (Inr (lv[n := v]))
      \<and> (if skip then v = -1 else spec_walk f x (treeOriginForest f ! n) 0 v)"
  proof (cases skip)
    case True
    then have "PredictRowNumReg_trees (Suc n) nTree' f inBag row x leaves useBag
        = Some (Inr (lv[n := -1]))"
      unfolding step by (simp only: if_True wl)
    then show ?thesis using True by auto
  next
    case False
    from wf n have o: "0 \<le> treeOriginForest f ! n"
      "nat (treeOriginForest f ! n) < length (bumpForest f)"
      "n < length (treeOriginForest f)"
      unfolding forest_wf_def by auto
    have ro: "rd (treeOriginForest f) (int n) = Inr (treeOriginForest f ! n)"
      using o(3) by (simp add: rd_def)
    from walk_NumReg_total[OF wf x, of "treeOriginForest f ! n" 0] o
    obtain leaf where leaf: "walk_NumReg f x (treeOriginForest f ! n) 0 = Some (Inr leaf)"
      "spec_walk f x (treeOriginForest f ! n) 0 leaf" by auto
    have "PredictRowNumReg_trees (Suc n) nTree' f inBag row x leaves useBag
        = Some (Inr (lv[n := leaf]))"
      unfolding step using False by (simp only: if_False ro leaf(1) option.case sum.case wl)
    then show ?thesis using False leaf(2) by auto
  qed
  then obtain v where v: "PredictRowNumReg_trees (Suc n) nTree' f inBag row x leaves useBag
        = Some (Inr (lv[n := v]))"
      "if ?skip then v = -1 else spec_walk f x (treeOriginForest f ! n) 0 v"
    unfolding skip_def by blast
  show ?case
  proof (intro exI[of _ "lv[n := v]"] conjI allI impI)
    fix t assume t: "t < Suc n"
    show "if useBag \<and> InBag nTree' inBag t row = Inr True then lv[n := v] ! t = -1
                else spec_walk f x (treeOriginForest f ! t) 0 (lv[n := v] ! t)"
    proof (cases "t = n")
      case True
      then show ?thesis using v(2) nl by simp
    next
      case False
      then have "t < n" using t by simp
      then show ?thesis using lv(3) False by simp
    qed
  next
    fix t assume "Suc n \<le> t"
    then show "lv[n := v] ! t = leaves ! t" using lv(4) by simp
  qed (use v(1) lv(2) in auto)
qed

text \<open>
  Claim C1, as the code has it: for every row \<open>r\<close> of a numeric design matrix of
  \<open>nRow * nPred\<close> cells below \<open>2 ^ 32\<close> (and, under \<open>useBag\<close>, a bitmap of
  \<open>nTree * nRow\<close> bits below \<open>2 ^ 32\<close>) and every tree \<open>t\<close> of a walkable forest, \<open>PredictRowNumReg\<close> returns, and the leaf it emits for
  \<open>(r, t)\<close> is the sentinel \<open>-1\<close> when \<open>useBag\<close> is set and \<open>r\<close> is in-bag for
  \<open>t\<close>; otherwise it is the index that the walk described by the spec reaches, and the
  only one: from the tree's origin, while \<open>lhBump[idx]\<close> is nonzero, \<open>idx\<close> advances
  by \<open>lhBump[idx]\<close> when \<open>x[r, predIdx[idx]] \<le> splitVal[idx]\<close> and by
  \<open>lhBump[idx] + 1\<close> otherwise, where \<open>x[r, p] = numBase[r + p * nRow]\<close>.
\<close>

theorem PredictRowNumReg_walks:
  assumes "forest_wf f nTree' nPred'" "row < nRow'" "length numBase = nRow' * nPred'"
    "nRow' * nPred' < 2 ^ 32" "length rowT = nPred'" "nTree' \<le> length leaves"
    and "useBag \<longrightarrow> nTree' * nRow' < 2 ^ 32
                  \<and> length inBag = (nTree' * nRow' + 31) div 32"
  shows "\<exists>x leaves'.
      fill_rowT nPred' numBase row nRow' rowT = Inr x
      \<and> (\<forall>p<nPred'. x ! p = numBase ! (row + p * nRow'))
      \<and> PredictRowNumReg nTree' nRow' nPred' numBase f inBag row rowT leaves useBag
          = Some (Inr leaves')
      \<and> length leaves' = length leaves
      \<and> (\<forall>t<nTree'.
            if useBag \<and> InBag nTree' inBag t row = Inr True then leaves' ! t = -1
            else spec_walk f x (treeOriginForest f ! t) 0 (leaves' ! t)
               \<and> (\<forall>l. spec_walk f x (treeOriginForest f ! t) 0 l \<longrightarrow> l = leaves' ! t))"
proof -
  from fill_rowT_effect[OF assms(2-4) order_refl, of rowT] assms(5)
  obtain x where x: "fill_rowT nPred' numBase row nRow' rowT = Inr x" "length x = nPred'"
    "\<forall>p<nPred'. x ! p = numBase ! (row + p * nRow')"
    by auto
  from PredictRowNumReg_trees_effect[OF assms(1) x(2) assms(2,6,7) order_refl]
  obtain lv where lv:
    "PredictRowNumReg_trees nTree' nTree' f inBag row x leaves useBag = Some (Inr lv)"
    "length lv = length leaves"
    "\<forall>t<nTree'. if useBag \<and> InBag nTree' inBag t row = Inr True then lv ! t = -1
                else spec_walk f x (treeOriginForest f ! t) 0 (lv ! t)"
    by blast
  have p: "PredictRowNumReg nTree' nRow' nPred' numBase f inBag row rowT leaves useBag
          = Some (Inr lv)"
    by (simp add: PredictRowNumReg_def x(1) lv(1))
  have "\<forall>t<nTree'.
            if useBag \<and> InBag nTree' inBag t row = Inr True then lv ! t = -1
            else spec_walk f x (treeOriginForest f ! t) 0 (lv ! t)
               \<and> (\<forall>l. spec_walk f x (treeOriginForest f ! t) 0 l \<longrightarrow> l = lv ! t)"
  proof (intro allI impI)
    fix t assume t: "t < nTree'"
    show "if useBag \<and> InBag nTree' inBag t row = Inr True then lv ! t = -1
            else spec_walk f x (treeOriginForest f ! t) 0 (lv ! t)
               \<and> (\<forall>l. spec_walk f x (treeOriginForest f ! t) 0 l \<longrightarrow> l = lv ! t)"
    proof (cases "useBag \<and> InBag nTree' inBag t row = Inr True")
      case True
      then show ?thesis using lv(3) t by auto
    next
      case False
      then have w: "spec_walk f x (treeOriginForest f ! t) 0 (lv ! t)"
        using lv(3) t by auto
      have uq: "\<forall>l. spec_walk f x (treeOriginForest f ! t) 0 l \<longrightarrow> l = lv ! t"
        using spec_walk_unique[OF w] by blast
      show ?thesis unfolding if_not_P[OF False] by (rule conjI[OF w uq])
    qed
  qed
  with x(1,3) p lv(2) show ?thesis by blast
qed

lemma ex_forest2_wf: "forest_wf ex_forest2 2 1"
  by (auto simp: forest_wf_def ex_forest2_def nth_Cons' split: if_splits)

lemma ex_walk: "walk_NumReg ex_forest2 [2] 0 0 = Some (Inr 2)"
  by (subst walk_NumReg.simps, simp add: rd_def ex_forest2_def)
     (subst walk_NumReg.simps, simp add: rd_def ex_forest2_def)

lemma ex_trees: "PredictRowNumReg_trees (Suc (Suc 0)) 2 ex_forest2 [2] 0 [2] [9, 9] True
    = Some (Inr [2, -1])"
proof -
  have i0: "InBag 2 [2] 0 0 = Inr False" by (simp add: InBag_def BagCoord_def)
  have i1: "InBag 2 [2] (Suc 0) 0 = Inr True" by (simp add: InBag_def BagCoord_def)
  have o: "rd (treeOriginForest ex_forest2) 0 = Inr 0"
    by (simp add: rd_def ex_forest2_def)
  show ?thesis by (simp add: i0 i1 o ex_walk wr_leaf_def)
qed

lemma ex_predict: "PredictRowNumReg 2 1 1 [2] ex_forest2 [2] 0 [0] [9, 9] True
    = Some (Inr [2, -1])"
proof -
  have f: "fill_rowT 1 [2] 0 1 [0] = Inr [2]" by simp
  have t: "PredictRowNumReg_trees 2 2 ex_forest2 [2] 0 [2] [9, 9] True = Some (Inr [2, -1])"
    using ex_trees by (simp only: numeral_2_eq_2)
  show ?thesis unfolding PredictRowNumReg_def f by (simp only: sum.case t)
qed

theorem PredictRowNumReg_walks_witness:
  "forest_wf ex_forest2 2 1 \<and> (0::nat) < 1 \<and> length [2 :: real] = 1 * 1
   \<and> (1::nat) * 1 < 2 ^ 32 \<and> length [0 :: real] = 1 \<and> 2 \<le> length [9, 9 :: int]
   \<and> (2::nat) * 1 < 2 ^ 32 \<and> length [2 :: 32 word] = (2 * 1 + 31) div 32
   \<and> PredictRowNumReg 2 1 1 [2] ex_forest2 [2] 0 [0] [9, 9] True = Some (Inr [2, -1])
   \<and> InBag 2 [2] 1 0 = Inr True
   \<and> spec_walk ex_forest2 [2] 0 0 2"
proof -
  have h: "(0::nat) < 1" "length [2 :: real] = 1 * 1" "(1::nat) * 1 < 2 ^ 32"
    "length [0 :: real] = 1" "2 \<le> length [9, 9 :: int]"
    by simp_all
  have hb: "True \<longrightarrow> (2::nat) * 1 < 2 ^ 32 \<and> length [2 :: 32 word] = (2 * 1 + 31) div 32"
    by simp
  have i0: "InBag 2 [2] 0 0 = Inr False" by (simp add: InBag_def BagCoord_def)
  have i1: "InBag 2 [2] 1 0 = Inr True" by (simp add: InBag_def BagCoord_def)
  from PredictRowNumReg_walks[OF ex_forest2_wf h hb]
  obtain x lv where r: "fill_rowT 1 [2] 0 1 [0] = Inr x"
    "PredictRowNumReg 2 1 1 [2] ex_forest2 [2] 0 [0] [9, 9] True = Some (Inr lv)"
    "\<forall>t<2. if True \<and> InBag 2 [2] t 0 = Inr True then lv ! t = -1
            else spec_walk ex_forest2 x (treeOriginForest ex_forest2 ! t) 0 (lv ! t)
               \<and> (\<forall>l. spec_walk ex_forest2 x (treeOriginForest ex_forest2 ! t) 0 l
                      \<longrightarrow> l = lv ! t)"
    by blast
  have x: "x = [2]" using r(1) by simp
  have lv: "lv = [2, -1]" using r(2) ex_predict by simp
  have "(0::nat) < 2" by simp
  with r(3) have "if True \<and> InBag 2 [2] 0 0 = Inr True then lv ! 0 = -1
            else spec_walk ex_forest2 x (treeOriginForest ex_forest2 ! 0) 0 (lv ! 0)
               \<and> (\<forall>l. spec_walk ex_forest2 x (treeOriginForest ex_forest2 ! 0) 0 l
                      \<longrightarrow> l = lv ! 0)"
    by blast
  then have "spec_walk ex_forest2 x (treeOriginForest ex_forest2 ! 0) 0 (lv ! 0)"
    unfolding i0 by simp
  then have w: "spec_walk ex_forest2 [2] 0 0 2"
    unfolding x lv by (simp add: ex_forest2_def)
  show ?thesis using ex_forest2_wf h hb ex_predict i1 w by simp
qed

lemma PredictRowNumReg_trees_fault:
  assumes "PredictRowNumReg_trees j nTree' f inBag row rowT leaves useBag = Some (Inl e)"
    "j \<le> n"
  shows "PredictRowNumReg_trees n nTree' f inBag row rowT leaves useBag = Some (Inl e)"
  using assms(2)
proof (induction n)
  case 0
  then show ?case using assms(1) by simp
next
  case (Suc n)
  show ?case
  proof (cases "j = Suc n")
    case True
    then show ?thesis using assms(1) by simp
  next
    case False
    then have "j \<le> n" using Suc.prems by simp
    then show ?thesis using Suc.IH by simp
  qed
qed

text \<open>
  The claim as stated fails for a design matrix whose cell count \<open>nRow * nPred\<close> does
  not fit 32 bits: the index \<^verbatim>\<open>row + i * nRow\<close> wraps. With \<open>2 ^ 30\<close> rows and 5
  predictors, predictor 4 of row 0 is read from cell 0, which holds predictor 0: the
  stump on predictor 4 sends row 0 to the right leaf 2, while \<open>x[0, 4] = 0\<close> lies
  below the cut and the walk of the claim ends at the left leaf 1. And under
  \<open>useBag\<close>, with 65536 trees over 65536 rows the bitmap that \<open>FactoryTrain\<close>
  allocates is empty, so the in-bag test of the first tree reads outside it.
\<close>

theorem PredictRowNumReg_wide_counterexample:
  "length ex_numBase_wide = 2 ^ 30 * 5
   \<and> forest_wf ex_stump4 1 5
   \<and> PredictRowNumReg 1 (2 ^ 30) 5 ex_numBase_wide ex_stump4 [] 0 [9, 9, 9, 9, 9] [7] False
       = Some (Inr [2])
   \<and> spec_walk ex_stump4
         [ex_numBase_wide ! (0 + 0 * 2 ^ 30), ex_numBase_wide ! (0 + 1 * 2 ^ 30),
          ex_numBase_wide ! (0 + 2 * 2 ^ 30), ex_numBase_wide ! (0 + 3 * 2 ^ 30),
          ex_numBase_wide ! (0 + 4 * 2 ^ 30)] 0 0 1
   \<and> forest_wf ex_forest_wide 65536 1
   \<and> PredictRowNumReg 65536 65536 1 (replicate 65536 0) ex_forest_wide
         (FactoryTrain_inBag 65536 65536) 0 [9] (replicate 65536 7) True
       = Some (Inl OutOfBounds)"
proof -
  have len: "length ex_numBase_wide = 2 ^ 30 * 5"
    by (simp add: ex_numBase_wide_def)
  have wf: "forest_wf ex_stump4 1 5"
    by (auto simp: forest_wf_def ex_stump4_def nth_Cons' split: if_splits)
  have five: "(5::nat) = Suc (Suc (Suc (Suc (Suc 0))))" by simp
  have fill: "fill_rowT 5 ex_numBase_wide 0 (2 ^ 30) [9, 9, 9, 9, 9] = Inr [1, 0, 0, 0, 1]"
    unfolding five by (simp add: ex_numBase_wide_def nth_Cons')
  have walk: "walk_NumReg ex_stump4 [1, 0, 0, 0, 1] 0 0 = Some (Inr 2)"
    by (subst walk_NumReg.simps, simp add: rd_def ex_stump4_def)
       (subst walk_NumReg.simps, simp add: rd_def ex_stump4_def)
  have o: "rd (treeOriginForest ex_stump4) 0 = Inr 0"
    by (simp add: rd_def ex_stump4_def)
  have "PredictRowNumReg_trees (Suc 0) 1 ex_stump4 [] 0 [1, 0, 0, 0, 1] [7] False
      = Some (Inr [2])"
    by (simp add: o walk wr_leaf_def)
  then have trees: "PredictRowNumReg_trees 1 1 ex_stump4 [] 0 [1, 0, 0, 0, 1] [7] False
      = Some (Inr [2])"
    by simp
  have p: "PredictRowNumReg 1 (2 ^ 30) 5 ex_numBase_wide ex_stump4 [] 0 [9, 9, 9, 9, 9] [7] False
       = Some (Inr [2])"
    unfolding PredictRowNumReg_def fill by (simp only: sum.case trees)
  have x: "[ex_numBase_wide ! (0 + 0 * 2 ^ 30), ex_numBase_wide ! (0 + 1 * 2 ^ 30),
          ex_numBase_wide ! (0 + 2 * 2 ^ 30), ex_numBase_wide ! (0 + 3 * 2 ^ 30),
          ex_numBase_wide ! (0 + 4 * 2 ^ 30)] = [1, 0, 0, 0, 0]"
    by (simp add: ex_numBase_wide_def nth_Cons')
  have l: "spec_walk ex_stump4 [1, 0, 0, 0, 0] 0 1 1"
    by (rule spec_leaf) (simp add: rd_def ex_stump4_def)
  have sw: "spec_walk ex_stump4 [1, 0, 0, 0, 0] 0 0 1"
    by (rule spec_left[where bump = 1 and pred = 4 and v = 0 and sv = "1 / 2"])
       (use l in \<open>simp_all add: rd_def ex_stump4_def\<close>)
  have wf2: "forest_wf ex_forest_wide 65536 1"
    by (simp add: forest_wf_def ex_forest_wide_def)
  have fb: "FactoryTrain_inBag 65536 65536 = []"
    by (simp add: FactoryTrain_inBag_def)
  have "PredictRowNumReg_trees (Suc 0) 65536 ex_forest_wide [] 0 [0] (replicate 65536 7) True
      = Some (Inl OutOfBounds)"
    by (simp add: InBag_def BagCoord_def)
  then have t2: "PredictRowNumReg_trees 65536 65536 ex_forest_wide [] 0 [0]
      (replicate 65536 7) True = Some (Inl OutOfBounds)"
    by (rule PredictRowNumReg_trees_fault) simp
  have f2: "fill_rowT 1 (replicate 65536 0) 0 65536 [9] = Inr [0]"
    by simp
  have p2: "PredictRowNumReg 65536 65536 1 (replicate 65536 0) ex_forest_wide
         (FactoryTrain_inBag 65536 65536) 0 [9] (replicate 65536 7) True
       = Some (Inl OutOfBounds)"
    unfolding PredictRowNumReg_def f2 fb by (simp only: sum.case t2)
  show ?thesis unfolding x using len wf p sw wf2 p2 by simp
qed

subsection \<open>SSNode::NonTerminal: replaying a split\<close>














lemma ex_upto: "[0..2::int] = [0, 1, 2]"
  by (simp add: upto.simps)



end
